theory Spec2Isabelle
  imports Main "HOL-Library.Option_ord" "HOL-Library.Product_Lexorder"
    "HOL-Library.List_Lexorder" "HOL-Library.Char_ord"
begin

section \<open>The generic directed weighted graph of gdwg\_graph.h\<close>

text \<open>
  The container \<open>gdwg::graph<N, E>\<close> keeps two \<open>std::set\<close>s: \<open>nodes_m\<close>, of
  \<open>std::shared_ptr<N>\<close>, and \<open>edges_m\<close>, of tuples of two node pointers and one
  \<open>std::shared_ptr<edge<N, E>>\<close>. The code compares pointers in some places and pointees
  in others, and \<open>update_node\<close> writes through an edge pointer, so the embedding keeps an
  explicit store: a pointer is an address, the pointee lives in \<open>node_mem\<close> or
  \<open>edge_mem\<close>, and \<open>make_shared\<close> takes the next unused address. Storage is never
  reclaimed in the model: a released object is merely unreachable. Graph objects are
  named by an identity (\<open>gid\<close>), which is what \<open>this != &other\<close> compares.

  \<open>N\<close> and \<open>E\<close> are linear orders (the integral and string instantiations of the tests);
  the \<open>if constexpr\<close> branch for floating-point weights is outside the embedding.
\<close>

subsection \<open>Edge objects\<close>

type_synonym addr = nat
type_synonym gid = nat

datatype error = runtime_error string

datatype strong_ordering = ordering_less | ordering_equal | ordering_greater

text \<open>The two final classes derived from \<open>edge<N, E>\<close>; the base-class fields
  \<open>src_\<close>, \<open>dst_\<close> and \<open>weight_\<close> are written \<open>src_m\<close>, \<open>dst_m\<close> and \<open>weight_m\<close>
  (as are \<open>nodes_\<close> and \<open>edges_\<close> below).\<close>

datatype ('n, 'e) edge =
    weighted_edge (src_m: 'n) (dst_m: 'n) 'e
  | unweighted_edge (src_m: 'n) (dst_m: 'n)

fun weight_m :: "('n, 'e) edge \<Rightarrow> 'e option" where
  "weight_m (weighted_edge src dst weight) = Some weight"
| "weight_m (unweighted_edge src dst) = None"

definition is_weighted :: "('n, 'e) edge \<Rightarrow> bool" where
  "is_weighted e = (weight_m e \<noteq> None)"

definition get_weight :: "('n, 'e) edge \<Rightarrow> 'e option" where
  "get_weight e = weight_m e"

definition get_nodes :: "('n, 'e) edge \<Rightarrow> 'n \<times> 'n" where
  "get_nodes e = (src_m e, dst_m e)"

text \<open>\<open>edge::operator==\<close>.\<close>

definition edge_eq :: "('n, 'e) edge \<Rightarrow> ('n, 'e) edge \<Rightarrow> bool" where
  "edge_eq e other = (get_nodes e = get_nodes other \<and> get_weight e = get_weight other)"

fun set_nodes :: "'n \<Rightarrow> 'n \<Rightarrow> ('n, 'e) edge \<Rightarrow> ('n, 'e) edge" where
  "set_nodes src dst (weighted_edge _ _ weight) = weighted_edge src dst weight"
| "set_nodes src dst (unweighted_edge _ _) = unweighted_edge src dst"

text \<open>\<open>weight_m <=> other.weight_m\<close> on two engaged optionals of a totally ordered type.\<close>

definition three_way :: "'e::linorder \<Rightarrow> 'e \<Rightarrow> strong_ordering" where
  "three_way a b = (if a < b then ordering_less else if a = b then ordering_equal else ordering_greater)"

definition edge_comp :: "('n, 'e::linorder) edge \<Rightarrow> ('n, 'e) edge \<Rightarrow> strong_ordering" where
  "edge_comp e other =
     (if \<not> is_weighted e \<and> \<not> is_weighted other then ordering_equal
      else if \<not> is_weighted e then ordering_less
      else if \<not> is_weighted other then ordering_greater
      else three_way (the (weight_m e)) (the (weight_m other)))"

text \<open>\<open>print_edge\<close>; the stream insertion of \<open>N\<close> and of \<open>E\<close> are parameters.\<close>

fun print_edge :: "('n \<Rightarrow> string) \<Rightarrow> ('e \<Rightarrow> string) \<Rightarrow> ('n, 'e) edge \<Rightarrow> string" where
  "print_edge showN showE (weighted_edge src dst weight) =
     showN src @ '' -> '' @ showN dst @ '' | W | '' @ showE weight"
| "print_edge showN showE (unweighted_edge src dst) =
     showN src @ '' -> '' @ showN dst @ '' | U''"

definition clone_ptr :: "('n, 'e) edge \<Rightarrow> ('n, 'e) edge" where
  "clone_ptr e = e"

subsection \<open>The store\<close>

type_synonym edge_tuple = "addr \<times> addr \<times> addr"

record graph =
  nodes_m :: "addr list"
  edges_m :: "edge_tuple list"

record ('n, 'e) world =
  node_mem :: "addr \<rightharpoonup> 'n"
  edge_mem :: "addr \<rightharpoonup> ('n, 'e) edge"
  brk :: addr
  graphs :: "gid \<Rightarrow> graph"

definition deref :: "('n, 'e) world \<Rightarrow> addr \<Rightarrow> 'n" where
  "deref w p = the (node_mem w p)"

definition deref_edge :: "('n, 'e) world \<Rightarrow> addr \<Rightarrow> ('n, 'e) edge" where
  "deref_edge w p = the (edge_mem w p)"

definition make_shared :: "'n \<Rightarrow> ('n, 'e) world \<Rightarrow> addr \<times> ('n, 'e) world" where
  "make_shared v w = (brk w, w\<lparr>node_mem := (node_mem w)(brk w \<mapsto> v), brk := Suc (brk w)\<rparr>)"

definition make_shared_edge :: "('n, 'e) edge \<Rightarrow> ('n, 'e) world \<Rightarrow> addr \<times> ('n, 'e) world" where
  "make_shared_edge e w = (brk w, w\<lparr>edge_mem := (edge_mem w)(brk w \<mapsto> e), brk := Suc (brk w)\<rparr>)"

definition graph_of :: "('n, 'e) world \<Rightarrow> gid \<Rightarrow> graph" where
  "graph_of w this = graphs w this"

definition put_nodes :: "gid \<Rightarrow> addr list \<Rightarrow> ('n, 'e) world \<Rightarrow> ('n, 'e) world" where
  "put_nodes this ns w = w\<lparr>graphs := (graphs w)(this := (graphs w this)\<lparr>nodes_m := ns\<rparr>)\<rparr>"

definition put_edges :: "gid \<Rightarrow> edge_tuple list \<Rightarrow> ('n, 'e) world \<Rightarrow> ('n, 'e) world" where
  "put_edges this es w = w\<lparr>graphs := (graphs w)(this := (graphs w this)\<lparr>edges_m := es\<rparr>)\<rparr>"

subsection \<open>\<open>std::set\<close> as a list kept in comparator order\<close>

text \<open>
  A \<open>std::set\<close> is the list of its elements in iteration order. Lookups descend by the
  comparator: \<open>precedes y\<close> says that the element \<open>y\<close> is ordered before the key,
  \<open>follows y\<close> that the key is ordered before \<open>y\<close>; an element that is neither is
  equivalent to the key.
\<close>

fun set_find :: "('a \<Rightarrow> bool) \<Rightarrow> ('a \<Rightarrow> bool) \<Rightarrow> 'a list \<Rightarrow> 'a option" where
  "set_find precedes follows [] = None"
| "set_find precedes follows (y # ys) =
     (if precedes y then set_find precedes follows ys
      else if follows y then None else Some y)"

definition set_contains :: "('a \<Rightarrow> bool) \<Rightarrow> ('a \<Rightarrow> bool) \<Rightarrow> 'a list \<Rightarrow> bool" where
  "set_contains precedes follows xs = (set_find precedes follows xs \<noteq> None)"

fun set_insert :: "('a \<Rightarrow> 'a \<Rightarrow> bool) \<Rightarrow> 'a \<Rightarrow> 'a list \<Rightarrow> 'a list" where
  "set_insert lt x [] = [x]"
| "set_insert lt x (y # ys) =
     (if lt y x then y # set_insert lt x ys
      else if lt x y then x # y # ys else y # ys)"

fun set_erase :: "('a \<Rightarrow> bool) \<Rightarrow> ('a \<Rightarrow> bool) \<Rightarrow> 'a list \<Rightarrow> 'a list" where
  "set_erase precedes follows [] = []"
| "set_erase precedes follows (y # ys) =
     (if precedes y then y # set_erase precedes follows ys
      else if follows y then y # ys else ys)"

text \<open>\<open>std::ranges::find_if\<close>: the position of the first element satisfying the predicate,
  or the length of the range (its end).\<close>

fun find_if :: "('a \<Rightarrow> bool) \<Rightarrow> 'a list \<Rightarrow> nat" where
  "find_if P [] = 0"
| "find_if P (x # xs) = (if P x then 0 else Suc (find_if P xs))"

text \<open>\<open>set::erase(iterator)\<close> and \<open>set::erase(iterator, iterator)\<close> on positions.\<close>

definition erase_at :: "nat \<Rightarrow> 'a list \<Rightarrow> 'a list" where
  "erase_at i xs = take i xs @ drop (Suc i) xs"

definition erase_range :: "nat \<Rightarrow> nat \<Rightarrow> 'a list \<Rightarrow> 'a list" where
  "erase_range i s xs = take i xs @ drop s xs"

subsection \<open>The comparators\<close>

text \<open>\<open>compare_shared_ptr\<close>, with its three overloads.\<close>

definition compare_shared_ptr :: "('n::linorder, 'e) world \<Rightarrow> addr \<Rightarrow> addr \<Rightarrow> bool" where
  "compare_shared_ptr w lhs rhs = (deref w lhs < deref w rhs)"

definition compare_ptr_value :: "('n::linorder, 'e) world \<Rightarrow> addr \<Rightarrow> 'n \<Rightarrow> bool" where
  "compare_ptr_value w lhs rhs = (deref w lhs < rhs)"

definition compare_value_ptr :: "('n::linorder, 'e) world \<Rightarrow> 'n \<Rightarrow> addr \<Rightarrow> bool" where
  "compare_value_ptr w lhs rhs = (lhs < deref w rhs)"

text \<open>\<open>compare_edges_set\<close>: the first two tests compare the pointers, the comparisons
  they guard compare the pointees.\<close>

fun compare_edges_set :: "('n::linorder, 'e::linorder) world \<Rightarrow> edge_tuple \<Rightarrow> edge_tuple \<Rightarrow> bool" where
  "compare_edges_set w (l0, l1, l2) (r0, r1, r2) =
     (if l0 \<noteq> r0 then compare_shared_ptr w l0 r0
      else if l1 \<noteq> r1 then compare_shared_ptr w l1 r1
      else edge_comp (deref_edge w l2) (deref_edge w r2) = ordering_less)"

subsection \<open>Private helpers\<close>

definition find_node_ptr :: "gid \<Rightarrow> 'n::linorder \<Rightarrow> ('n, 'e) world \<Rightarrow> addr option" where
  "find_node_ptr this v w =
     set_find (\<lambda>p. compare_ptr_value w p v) (\<lambda>p. compare_value_ptr w v p) (nodes_m (graphs w this))"

definition nodes_insert :: "gid \<Rightarrow> addr \<Rightarrow> ('n::linorder, 'e) world \<Rightarrow> ('n, 'e) world" where
  "nodes_insert this p w = put_nodes this (set_insert (compare_shared_ptr w) p (nodes_m (graphs w this))) w"

definition nodes_erase :: "gid \<Rightarrow> addr \<Rightarrow> ('n::linorder, 'e) world \<Rightarrow> ('n, 'e) world" where
  "nodes_erase this p w =
     put_nodes this (set_erase (\<lambda>q. compare_shared_ptr w q p) (\<lambda>q. compare_shared_ptr w p q)
       (nodes_m (graphs w this))) w"

definition edges_contains :: "gid \<Rightarrow> edge_tuple \<Rightarrow> ('n::linorder, 'e::linorder) world \<Rightarrow> bool" where
  "edges_contains this t w =
     set_contains (\<lambda>u. compare_edges_set w u t) (\<lambda>u. compare_edges_set w t u) (edges_m (graphs w this))"

definition edges_insert :: "gid \<Rightarrow> edge_tuple \<Rightarrow> ('n::linorder, 'e::linorder) world \<Rightarrow> ('n, 'e) world" where
  "edges_insert this t w = put_edges this (set_insert (compare_edges_set w) t (edges_m (graphs w this))) w"

text \<open>\<open>edge->set_nodes(src, dst)\<close> through the pointer.\<close>

definition store_set_nodes :: "addr \<Rightarrow> 'n \<Rightarrow> 'n \<Rightarrow> ('n, 'e) world \<Rightarrow> ('n, 'e) world" where
  "store_set_nodes p src dst w = w\<lparr>edge_mem := (edge_mem w)(p \<mapsto> set_nodes src dst (deref_edge w p))\<rparr>"

text \<open>
  The loop of \<open>update_node\<close> over \<open>edges_m\<close>: a tuple that mentions \<open>src_ptr\<close> is inserted,
  rewritten, into \<open>updated_edges\<close>, its edge object is rewritten through the pointer, and
  the tuple is erased from \<open>edges_m\<close>; the others stay. The result is the tuples that
  stay, \<open>updated_edges\<close> and the store.
\<close>

fun update_node_loop ::
  "addr \<Rightarrow> addr \<Rightarrow> edge_tuple list \<Rightarrow> edge_tuple list \<Rightarrow> ('n::linorder, 'e::linorder) world
    \<Rightarrow> edge_tuple list \<times> edge_tuple list \<times> ('n, 'e) world" where
  "update_node_loop src_ptr dst_ptr [] updated_edges w = ([], updated_edges, w)"
| "update_node_loop src_ptr dst_ptr ((src, dest, edge) # rest) updated_edges w =
     (if src = src_ptr \<or> dest = src_ptr then
        let new_edge = (if src = src_ptr then dst_ptr else src,
                        if dest = src_ptr then dst_ptr else dest, edge);
            updated_edges' = set_insert (compare_edges_set w) new_edge updated_edges;
            w' = store_set_nodes edge (deref w (fst new_edge)) (deref w (fst (snd new_edge))) w
        in update_node_loop src_ptr dst_ptr rest updated_edges' w'
      else
        let (kept, updated_edges', w') = update_node_loop src_ptr dst_ptr rest updated_edges w
        in ((src, dest, edge) # kept, updated_edges', w'))"

definition update_node :: "gid \<Rightarrow> addr \<Rightarrow> addr \<Rightarrow> ('n::linorder, 'e::linorder) world \<Rightarrow> ('n, 'e) world" where
  "update_node this src_ptr dst_ptr w =
     (let (kept, updated_edges, w') = update_node_loop src_ptr dst_ptr (edges_m (graphs w this)) [] w
      in put_edges this (foldl (\<lambda>es t. set_insert (compare_edges_set w') t es) kept updated_edges) w')"

subsection \<open>Accessors\<close>

definition is_node :: "gid \<Rightarrow> 'n::linorder \<Rightarrow> ('n, 'e) world \<Rightarrow> bool" where
  "is_node this v w =
     set_contains (\<lambda>p. compare_ptr_value w p v) (\<lambda>p. compare_value_ptr w v p) (nodes_m (graphs w this))"

definition empty_graph :: "gid \<Rightarrow> ('n, 'e) world \<Rightarrow> bool" where
  "empty_graph this w = (nodes_m (graphs w this) = [])"

definition nodes :: "gid \<Rightarrow> ('n, 'e) world \<Rightarrow> 'n list" where
  "nodes this w = map (deref w) (nodes_m (graphs w this))"

definition is_connected :: "gid \<Rightarrow> 'n::linorder \<Rightarrow> 'n \<Rightarrow> ('n, 'e) world \<Rightarrow> error + bool" where
  "is_connected this src dst w =
     (if \<not> is_node this src w \<or> \<not> is_node this dst w then
        Inl (runtime_error ''Cannot call gdwg::graph<N, E>::is_connected if src or dst node don't exist in the graph'')
      else
        Inr (find_if (\<lambda>(src_ptr, dst_ptr, edge_ptr). deref w src_ptr = src \<and> deref w dst_ptr = dst)
               (edges_m (graphs w this)) \<noteq> length (edges_m (graphs w this))))"

definition edges :: "gid \<Rightarrow> 'n::linorder \<Rightarrow> 'n \<Rightarrow> ('n, 'e) world \<Rightarrow> error + ('n, 'e) edge list" where
  "edges this src dst w =
     (if \<not> is_node this src w \<or> \<not> is_node this dst w then
        Inl (runtime_error ''Cannot call gdwg::graph<N, E>::edges if src or dst node don't exist in the graph'')
      else
        Inr (map (\<lambda>(src_ptr, dst_ptr, edge_ptr). clone_ptr (deref_edge w edge_ptr))
               (filter (\<lambda>(src_ptr, dst_ptr, edge_ptr). deref w src_ptr = src \<and> deref w dst_ptr = dst)
                  (edges_m (graphs w this)))))"

definition connections :: "gid \<Rightarrow> 'n::linorder \<Rightarrow> ('n, 'e) world \<Rightarrow> error + 'n list" where
  "connections this src w =
     (if \<not> is_node this src w then
        Inl (runtime_error ''Cannot call gdwg::graph<N, E>::connections if src doesn't exist in the graph'')
      else
        Inr (remdups_adj (map (\<lambda>(src_ptr, dst_ptr, edge_ptr). deref w dst_ptr)
               (filter (\<lambda>(src_ptr, dst_ptr, edge_ptr). deref w src_ptr = src) (edges_m (graphs w this))))))"

subsection \<open>Iterators\<close>

text \<open>An iterator is a position in \<open>edges_m\<close>; \<open>end()\<close> is the length. Dereferencing
  copies the nodes and the weight out of the edge object.\<close>

type_synonym iterator = nat

record ('n, 'e) iter_value =
  from_v :: 'n
  to_v :: 'n
  weight :: "'e option"

definition begin_it :: "gid \<Rightarrow> ('n, 'e) world \<Rightarrow> iterator" where
  "begin_it this w = 0"

definition end_it :: "gid \<Rightarrow> ('n, 'e) world \<Rightarrow> iterator" where
  "end_it this w = length (edges_m (graphs w this))"

definition tuple_value :: "('n, 'e) world \<Rightarrow> edge_tuple \<Rightarrow> ('n, 'e) iter_value" where
  "tuple_value w t =
     (let edge = deref_edge w (snd (snd t)); (src, dst) = get_nodes edge
      in \<lparr>from_v = src, to_v = dst, weight = get_weight edge\<rparr>)"

definition iter_deref :: "gid \<Rightarrow> iterator \<Rightarrow> ('n, 'e) world \<Rightarrow> ('n, 'e) iter_value" where
  "iter_deref this it w = tuple_value w (edges_m (graphs w this) ! it)"

text \<open>The range \<open>[begin(), end())\<close> as the loop \<open>for (auto const& [from, to, weight] : g)\<close>
  sees it.\<close>

definition traverse :: "gid \<Rightarrow> ('n, 'e) world \<Rightarrow> ('n, 'e) iter_value list" where
  "traverse this w = map (tuple_value w) (edges_m (graphs w this))"

definition find_edge :: "gid \<Rightarrow> 'n \<Rightarrow> 'n \<Rightarrow> 'e option \<Rightarrow> ('n, 'e) world \<Rightarrow> iterator" where
  "find_edge this src dst wt w =
     find_if (\<lambda>edge. from_v edge = src \<and> to_v edge = dst \<and> weight edge = wt) (traverse this w)"

subsection \<open>Modifiers\<close>

definition insert_node :: "gid \<Rightarrow> 'n::linorder \<Rightarrow> ('n, 'e) world \<Rightarrow> bool \<times> ('n, 'e) world" where
  "insert_node this v w =
     (if set_contains (\<lambda>p. compare_ptr_value w p v) (\<lambda>p. compare_value_ptr w v p) (nodes_m (graphs w this))
      then (False, w)
      else let (new_node, w1) = make_shared v w in (True, nodes_insert this new_node w1))"

definition insert_edge ::
  "gid \<Rightarrow> 'n::linorder \<Rightarrow> 'n \<Rightarrow> 'e::linorder option \<Rightarrow> ('n, 'e) world \<Rightarrow> (error + bool) \<times> ('n, 'e) world" where
  "insert_edge this src dst wt w =
     (case (find_node_ptr this src w, find_node_ptr this dst w) of
        (Some src_ptr, Some dst_ptr) \<Rightarrow>
          let (edge_ptr, w1) =
                (case wt of
                   None \<Rightarrow> make_shared_edge (unweighted_edge src dst) w
                 | Some v \<Rightarrow> make_shared_edge (weighted_edge src dst v) w);
              new_edge = (src_ptr, dst_ptr, edge_ptr)
          in if edges_contains this new_edge w1 then (Inr False, w1)
             else (Inr True, edges_insert this new_edge w1)
      | _ \<Rightarrow>
          (Inl (runtime_error ''Cannot call gdwg::graph<N, E>::insert_edge when either src or dst node does not exist''), w))"

definition replace_node ::
  "gid \<Rightarrow> 'n::linorder \<Rightarrow> 'n \<Rightarrow> ('n, 'e::linorder) world \<Rightarrow> (error + bool) \<times> ('n, 'e) world" where
  "replace_node this old_data new_data w =
     (case find_node_ptr this old_data w of
        None \<Rightarrow>
          (Inl (runtime_error ''Cannot call gdwg::graph<N, E>::replace_node on a node that doesn't exist''), w)
      | Some src_ptr \<Rightarrow>
          if is_node this new_data w then (Inr False, w)
          else if old_data \<noteq> new_data then
            let (new_node, w1) = make_shared new_data w;
                w2 = nodes_erase this src_ptr w1;
                w3 = nodes_insert this new_node w2
            in (Inr True, update_node this src_ptr new_node w3)
          else (Inr True, w))"

definition merge_replace_node ::
  "gid \<Rightarrow> 'n::linorder \<Rightarrow> 'n \<Rightarrow> ('n, 'e::linorder) world \<Rightarrow> (error + unit) \<times> ('n, 'e) world" where
  "merge_replace_node this old_data new_data w =
     (case (find_node_ptr this old_data w, find_node_ptr this new_data w) of
        (Some src_ptr, Some new_ptr) \<Rightarrow>
          if old_data \<noteq> new_data then
            (Inr (), update_node this src_ptr new_ptr (nodes_erase this src_ptr w))
          else (Inr (), w)
      | _ \<Rightarrow>
          (Inl (runtime_error ''Cannot call gdwg::graph<N, E>::merge_replace_node on old or new data if they don't exist in the graph''), w))"

definition erase_node :: "gid \<Rightarrow> 'n::linorder \<Rightarrow> ('n, 'e) world \<Rightarrow> bool \<times> ('n, 'e) world" where
  "erase_node this v w =
     (case find_node_ptr this v w of
        None \<Rightarrow> (False, w)
      | Some node_ptr \<Rightarrow>
          let w1 = nodes_erase this node_ptr w
          in (True, put_edges this
                (filter (\<lambda>(from_p, to_p, edge). \<not> (deref w1 from_p = deref w1 node_ptr \<or> deref w1 to_p = deref w1 node_ptr))
                   (edges_m (graphs w1 this))) w1))"

definition erase_edge ::
  "gid \<Rightarrow> 'n::linorder \<Rightarrow> 'n \<Rightarrow> 'e option \<Rightarrow> ('n, 'e) world \<Rightarrow> (error + bool) \<times> ('n, 'e) world" where
  "erase_edge this src dst wt w =
     (if \<not> is_node this src w \<or> \<not> is_node this dst w then
        (Inl (runtime_error ''Cannot call gdwg::graph<N, E>::erase_edge on src or dst if they don't exist in the graph''), w)
      else
        let edge_ptr = find_if (\<lambda>(from_p, to_p, edge).
                           deref w from_p = src \<and> deref w to_p = dst \<and> get_weight (deref_edge w edge) = wt)
                         (edges_m (graphs w this))
        in if edge_ptr = length (edges_m (graphs w this)) then (Inr False, w)
           else (Inr True, put_edges this (erase_at edge_ptr (edges_m (graphs w this))) w))"

text \<open>\<open>erase_edge(iterator)\<close> and \<open>erase_edge(iterator, iterator)\<close>: the iterator that
  follows the erased span is at the position where the span began.\<close>

definition erase_edge_it :: "gid \<Rightarrow> iterator \<Rightarrow> ('n, 'e) world \<Rightarrow> iterator \<times> ('n, 'e) world" where
  "erase_edge_it this i w = (i, put_edges this (erase_at i (edges_m (graphs w this))) w)"

definition erase_edge_range :: "gid \<Rightarrow> iterator \<Rightarrow> iterator \<Rightarrow> ('n, 'e) world \<Rightarrow> iterator \<times> ('n, 'e) world" where
  "erase_edge_range this i s w = (i, put_edges this (erase_range i s (edges_m (graphs w this))) w)"

definition clear :: "gid \<Rightarrow> ('n, 'e) world \<Rightarrow> ('n, 'e) world" where
  "clear this w = put_edges this [] (put_nodes this [] w)"

subsection \<open>Construction, copy and move\<close>

definition graph_default :: "gid \<Rightarrow> ('n, 'e) world \<Rightarrow> ('n, 'e) world" where
  "graph_default this w = w\<lparr>graphs := (graphs w)(this := \<lparr>nodes_m = [], edges_m = []\<rparr>)\<rparr>"

text \<open>The range constructor: \<open>std::transform\<close> makes a shared pointer of every element and
  the inserter offers it to \<open>nodes_\<close>.\<close>

definition graph_range :: "gid \<Rightarrow> 'n::linorder list \<Rightarrow> ('n, 'e) world \<Rightarrow> ('n, 'e) world" where
  "graph_range this elems w =
     foldl (\<lambda>w' elem. let (p, w1) = make_shared elem w' in nodes_insert this p w1)
       (graph_default this w) elems"

definition graph_il :: "gid \<Rightarrow> 'n::linorder list \<Rightarrow> ('n, 'e) world \<Rightarrow> ('n, 'e) world" where
  "graph_il this il w = graph_range this il w"

fun deep_copy_edges ::
  "gid \<Rightarrow> edge_tuple list \<Rightarrow> ('n::linorder, 'e::linorder) world \<Rightarrow> (error + unit) \<times> ('n, 'e) world" where
  "deep_copy_edges this [] w = (Inr (), w)"
| "deep_copy_edges this ((src, dst, edge) # rest) w =
     (case insert_edge this (deref w src) (deref w dst) (get_weight (deref_edge w edge)) w of
        (Inl e, w') \<Rightarrow> (Inl e, w')
      | (Inr _, w') \<Rightarrow> deep_copy_edges this rest w')"

definition deep_copy ::
  "gid \<Rightarrow> gid \<Rightarrow> ('n::linorder, 'e::linorder) world \<Rightarrow> (error + unit) \<times> ('n, 'e) world" where
  "deep_copy this other w =
     (let w1 = clear this w;
          w2 = foldl (\<lambda>w' n. let (p, w'') = make_shared (deref w' n) w' in nodes_insert this p w'')
                 w1 (nodes_m (graphs w1 other))
      in deep_copy_edges this (edges_m (graphs w2 other)) w2)"

definition graph_copy ::
  "gid \<Rightarrow> gid \<Rightarrow> ('n::linorder, 'e::linorder) world \<Rightarrow> (error + unit) \<times> ('n, 'e) world" where
  "graph_copy this other w = deep_copy this other (graph_default this w)"

text \<open>\<open>std::exchange(other.nodes_, {})\<close> and \<open>std::exchange(other.edges_, {})\<close>, in the
  order of the member initialisers.\<close>

definition exchange_into :: "gid \<Rightarrow> gid \<Rightarrow> ('n, 'e) world \<Rightarrow> ('n, 'e) world" where
  "exchange_into this other w =
     (let ns = nodes_m (graphs w other);
          w1 = put_nodes this ns (put_nodes other [] w);
          es = edges_m (graphs w1 other)
      in put_edges this es (put_edges other [] w1))"

definition graph_move :: "gid \<Rightarrow> gid \<Rightarrow> ('n, 'e) world \<Rightarrow> ('n, 'e) world" where
  "graph_move this other w = exchange_into this other w"

definition copy_assign ::
  "gid \<Rightarrow> gid \<Rightarrow> ('n::linorder, 'e::linorder) world \<Rightarrow> (error + unit) \<times> ('n, 'e) world" where
  "copy_assign this other w = (if this \<noteq> other then deep_copy this other w else (Inr (), w))"

definition move_assign :: "gid \<Rightarrow> gid \<Rightarrow> ('n, 'e) world \<Rightarrow> ('n, 'e) world" where
  "move_assign this other w = (if this \<noteq> other then exchange_into this other w else w)"

subsection \<open>Comparison and rendering\<close>

text \<open>\<open>operator==\<close>.\<close>

definition graph_eq :: "gid \<Rightarrow> gid \<Rightarrow> ('n, 'e) world \<Rightarrow> bool" where
  "graph_eq this other w =
     (if length (nodes_m (graphs w this)) \<noteq> length (nodes_m (graphs w other))
         \<or> length (edges_m (graphs w this)) \<noteq> length (edges_m (graphs w other)) then False
      else if \<not> list_all2 (\<lambda>lhs rhs. deref w lhs = deref w rhs)
                  (nodes_m (graphs w this)) (nodes_m (graphs w other)) then False
      else if \<not> list_all2 (\<lambda>lhs rhs. edge_eq (deref_edge w (snd (snd lhs))) (deref_edge w (snd (snd rhs))))
                  (edges_m (graphs w this)) (edges_m (graphs w other)) then False
      else True)"

text \<open>\<open>operator<<\<close>: the characters written to the stream.\<close>

definition render :: "('n \<Rightarrow> string) \<Rightarrow> ('e \<Rightarrow> string) \<Rightarrow> gid \<Rightarrow> ('n, 'e) world \<Rightarrow> string" where
  "render showN showE g w =
     ''\<newline>'' @
     concat (map (\<lambda>node.
        showN (deref w node) @ '' (\<newline>'' @
        concat (map (\<lambda>(src, dst, edge).
           if deref w src = deref w node
           then ''  '' @ print_edge showN showE (deref_edge w edge) @ ''\<newline>'' else [])
         (edges_m (graphs w g))) @
        '')\<newline>'')
      (nodes_m (graphs w g)))"

text \<open>The store before any graph is built: every graph object is empty.\<close>

definition init_world :: "('n, 'e) world" where
  "init_world = \<lparr>node_mem = Map.empty, edge_mem = Map.empty, brk = 0,
     graphs = (\<lambda>_. \<lparr>nodes_m = [], edges_m = []\<rparr>)\<rparr>"

subsection \<open>Stream insertion of \<open>std::string\<close> and \<open>int\<close>\<close>

text \<open>The two instances of \<open>operator<<\<close> that the demonstration graph
  \<open>gdwg::graph<std::string, int>\<close> uses: a string is written as it is, an \<open>int\<close> in
  decimal with a leading minus sign when negative.\<close>

definition show_string :: "string \<Rightarrow> string" where
  "show_string s = s"

definition digit_char :: "nat \<Rightarrow> char" where
  "digit_char d = ''0123456789'' ! d"

function show_nat :: "nat \<Rightarrow> string" where
  "show_nat n = (if n < 10 then [digit_char n] else show_nat (n div 10) @ [digit_char (n mod 10)])"
  by pat_completeness auto
termination
  by (relation "measure id") auto

definition show_int :: "int \<Rightarrow> string" where
  "show_int i = (if i < 0 then ''-'' @ show_nat (nat (- i)) else show_nat (nat i))"

section \<open>Invariants and observations\<close>

subsection \<open>Well-formed stores\<close>

text \<open>
  The key under which \<open>compare_edges_set\<close> orders a tuple whose pointers are valid: the
  two node values and the weight, the absent weight first.
\<close>

definition tuple_key :: "('n, 'e) world \<Rightarrow> edge_tuple \<Rightarrow> 'n \<times> 'n \<times> 'e option" where
  "tuple_key w t = (deref w (fst t), deref w (fst (snd t)), weight_m (deref_edge w (snd (snd t))))"

definition edge_ptrs :: "graph \<Rightarrow> addr set" where
  "edge_ptrs g = (snd \<circ> snd) ` set (edges_m g)"

text \<open>
  The representation invariant of one graph object, in two parts. The node pointers are
  allocated and their values strictly ascending. The node pointers of every tuple are
  among the pointers \<open>N\<close>, its edge object is allocated and stores the two node values;
  the tuples are strictly ascending by key and no edge object is in two tuples.
\<close>

definition nodes_ok :: "('n::linorder, 'e) world \<Rightarrow> addr list \<Rightarrow> bool" where
  "nodes_ok w ns \<longleftrightarrow> set ns \<subseteq> dom (node_mem w) \<and> sorted_wrt (<) (map (deref w) ns)"

definition edges_ok :: "('n::linorder, 'e::linorder) world \<Rightarrow> addr set \<Rightarrow> edge_tuple list \<Rightarrow> bool" where
  "edges_ok w N es \<longleftrightarrow>
     (\<forall>t\<in>set es.
        fst t \<in> N \<and> fst (snd t) \<in> N \<and> snd (snd t) \<in> dom (edge_mem w) \<and>
        get_nodes (deref_edge w (snd (snd t))) = (deref w (fst t), deref w (fst (snd t)))) \<and>
     sorted_wrt (<) (map (tuple_key w) es) \<and>
     inj_on (snd \<circ> snd) (set es)"

definition graph_ok :: "('n::linorder, 'e::linorder) world \<Rightarrow> graph \<Rightarrow> bool" where
  "graph_ok w g \<longleftrightarrow> nodes_ok w (nodes_m g) \<and> edges_ok w (set (nodes_m g)) (edges_m g)"

text \<open>
  The invariant of the store: every graph object is well formed, allocated addresses lie
  below \<open>brk\<close>, and no edge object belongs to two graph objects.
\<close>

definition world_ok :: "('n::linorder, 'e::linorder) world \<Rightarrow> bool" where
  "world_ok w \<longleftrightarrow>
     (\<forall>i. graph_ok w (graphs w i)) \<and>
     (\<forall>p\<in>dom (node_mem w). p < brk w) \<and>
     (\<forall>p\<in>dom (edge_mem w). p < brk w) \<and>
     (\<forall>i j. i \<noteq> j \<longrightarrow> edge_ptrs (graphs w i) \<inter> edge_ptrs (graphs w j) = {})"

text \<open>The value an iterator yields, as a triple.\<close>

definition triple :: "('n, 'e) iter_value \<Rightarrow> 'n \<times> 'n \<times> 'e option" where
  "triple v = (from_v v, to_v v, weight v)"

definition edge_records :: "gid \<Rightarrow> ('n, 'e) world \<Rightarrow> ('n \<times> 'n \<times> 'e option) list" where
  "edge_records this w = map triple (traverse this w)"

subsection \<open>Frames\<close>

text \<open>
  What one call on the graph object \<open>this\<close> may do to the store: the other graph objects,
  the allocated node cells and the allocated edge cells outside \<open>this\<close> stay as they
  are, addresses are only added, and the edge objects of \<open>this\<close> afterwards are its old
  ones or new ones.
\<close>

definition frame :: "gid \<Rightarrow> ('n, 'e) world \<Rightarrow> ('n, 'e) world \<Rightarrow> bool" where
  "frame this w w' \<longleftrightarrow>
     (\<forall>j. j \<noteq> this \<longrightarrow> graphs w' j = graphs w j) \<and>
     (\<forall>p\<in>dom (node_mem w). node_mem w' p = node_mem w p) \<and>
     (\<forall>p\<in>dom (edge_mem w). p \<notin> edge_ptrs (graphs w this) \<longrightarrow> edge_mem w' p = edge_mem w p) \<and>
     brk w \<le> brk w' \<and>
     (\<forall>p\<in>dom (node_mem w'). p < brk w') \<and>
     (\<forall>p\<in>dom (edge_mem w'). p < brk w') \<and>
     edge_ptrs (graphs w' this) \<subseteq> edge_ptrs (graphs w this) \<union> {p. brk w \<le> p}"

subsection \<open>Sample stores\<close>

text \<open>A graph object \<open>gdwg::graph<int, int>\<close> with the nodes 1 and 2, then with the
  edge from 1 to 2 of weight 5, then also with the unweighted edge from 1 to 2.\<close>

definition two_nodes :: "(int, int) world" where
  "two_nodes = snd (insert_node 0 2 (snd (insert_node 0 1 init_world)))"

definition one_edge :: "(int, int) world" where
  "one_edge = snd (insert_edge 0 1 2 (Some 5) two_nodes)"

text \<open>The store \<open>one_edge\<close> with the unweighted self-loop on node 1 added.\<close>

definition loop_edge :: "(int, int) world" where
  "loop_edge = snd (insert_edge 0 1 1 None one_edge)"

subsection \<open>Renaming\<close>

text \<open>What \<open>update_node\<close> does to one tuple, and what that is on the record.\<close>

definition mentions :: "addr \<Rightarrow> edge_tuple \<Rightarrow> bool" where
  "mentions src_ptr t \<longleftrightarrow> fst t = src_ptr \<or> fst (snd t) = src_ptr"

definition redirect :: "addr \<Rightarrow> addr \<Rightarrow> edge_tuple \<Rightarrow> edge_tuple" where
  "redirect src_ptr dst_ptr t =
     (if fst t = src_ptr then dst_ptr else fst t,
      if fst (snd t) = src_ptr then dst_ptr else fst (snd t), snd (snd t))"

definition rename_record :: "'n \<Rightarrow> 'n \<Rightarrow> 'n \<times> 'n \<times> 'e option \<Rightarrow> 'n \<times> 'n \<times> 'e option" where
  "rename_record old new k =
     (if fst k = old then new else fst k, if fst (snd k) = old then new else fst (snd k), snd (snd k))"

text \<open>The record an edge object stands for.\<close>

definition record_of :: "('n, 'e) edge \<Rightarrow> 'n \<times> 'n \<times> 'e option" where
  "record_of e = (fst (get_nodes e), snd (get_nodes e), get_weight e)"

text \<open>The store \<open>one_edge\<close> with a third node 3 and the edge from 3 to 2 of weight 5.\<close>

definition twin_edges :: "(int, int) world" where
  "twin_edges = snd (insert_edge 0 3 2 (Some 5) (snd (insert_node 0 3 one_edge)))"

subsection \<open>The rendering format, from the specification\<close>

text \<open>The text form of one record: \<open><src> -> <dst> | U\<close> without a weight,
  \<open><src> -> <dst> | W | <weight>\<close> with one.\<close>

definition record_line :: "('n \<Rightarrow> string) \<Rightarrow> ('e \<Rightarrow> string) \<Rightarrow> ('n, 'e) iter_value \<Rightarrow> string" where
  "record_line showN showE v =
     showN (from_v v) @ '' -> '' @ showN (to_v v) @
     (case weight v of None \<Rightarrow> '' | U'' | Some x \<Rightarrow> '' | W | '' @ showE x)"

text \<open>The whole text: a blank line, then for every node its value and \<open> (\<close>, one
  line indented by two spaces for every record whose source is the node, and \<open>)\<close>.\<close>

definition rendering ::
  "('n \<Rightarrow> string) \<Rightarrow> ('e \<Rightarrow> string) \<Rightarrow> 'n list \<Rightarrow> ('n, 'e) iter_value list \<Rightarrow> string" where
  "rendering showN showE ns vs =
     ''\<newline>'' @
     concat (map (\<lambda>n. showN n @ '' (\<newline>'' @
                    concat (map (\<lambda>v. ''  '' @ record_line showN showE v @ ''\<newline>'')
                              (filter (\<lambda>v. from_v v = n) vs)) @
                    '')\<newline>'') ns)"

text \<open>The graph of the demonstration program: four nodes, six weighted edges.\<close>

definition demo_nodes :: "(string, int) world" where
  "demo_nodes =
     snd (insert_node 0 ''you?'' (snd (insert_node 0 ''are''
       (snd (insert_node 0 ''how'' (snd (insert_node 0 ''hello'' init_world)))))))"

definition demo :: "(string, int) world" where
  "demo =
     snd (insert_edge 0 ''are'' ''you?'' (Some 3)
       (snd (insert_edge 0 ''how'' ''hello'' (Some 4)
         (snd (insert_edge 0 ''how'' ''you?'' (Some 1)
           (snd (insert_edge 0 ''hello'' ''are'' (Some 2)
             (snd (insert_edge 0 ''hello'' ''are'' (Some 8)
               (snd (insert_edge 0 ''hello'' ''how'' (Some 5) demo_nodes)))))))))))"

subsection \<open>Sequences of calls\<close>

text \<open>The public operations that change a store, each with the graph object it is
  called on (for a copy or a move, the object written first and the source second).\<close>

datatype ('n, 'e) call =
    Insert_node gid 'n
  | Insert_edge gid 'n 'n "'e option"
  | Replace_node gid 'n 'n
  | Merge_replace_node gid 'n 'n
  | Erase_node gid 'n
  | Erase_edge gid 'n 'n "'e option"
  | Erase_edge_at gid iterator
  | Erase_edge_span gid iterator iterator
  | Clear gid
  | Construct gid
  | Construct_from gid "'n list"
  | Copy_construct gid gid
  | Move_construct gid gid
  | Copy_assignment gid gid
  | Move_assignment gid gid

text \<open>The store after a call, whether it returned or raised.\<close>

fun after :: "('n::linorder, 'e::linorder) call \<Rightarrow> ('n, 'e) world \<Rightarrow> ('n, 'e) world" where
  "after (Insert_node g v) w = snd (insert_node g v w)"
| "after (Insert_edge g src dst wt) w = snd (insert_edge g src dst wt w)"
| "after (Replace_node g old_data new_data) w = snd (replace_node g old_data new_data w)"
| "after (Merge_replace_node g old_data new_data) w = snd (merge_replace_node g old_data new_data w)"
| "after (Erase_node g v) w = snd (erase_node g v w)"
| "after (Erase_edge g src dst wt) w = snd (erase_edge g src dst wt w)"
| "after (Erase_edge_at g i) w = snd (erase_edge_it g i w)"
| "after (Erase_edge_span g i s) w = snd (erase_edge_range g i s w)"
| "after (Clear g) w = clear g w"
| "after (Construct g) w = graph_default g w"
| "after (Construct_from g elems) w = graph_range g elems w"
| "after (Copy_construct g other) w = snd (graph_copy g other w)"
| "after (Move_construct g other) w = graph_move g other w"
| "after (Copy_assignment g other) w = snd (copy_assign g other w)"
| "after (Move_assignment g other) w = move_assign g other w"

text \<open>What the language asks of the arguments: an iterator that is erased points at an
  edge, a range of iterators is a range of the graph, and a constructor builds an
  object other than its source.\<close>

fun admissible :: "('n, 'e) call \<Rightarrow> ('n, 'e) world \<Rightarrow> bool" where
  "admissible (Erase_edge_at g i) w = (i < end_it g w)"
| "admissible (Erase_edge_span g i s) w = (i \<le> s \<and> s \<le> end_it g w)"
| "admissible (Copy_construct g other) w = (g \<noteq> other)"
| "admissible (Move_construct g other) w = (g \<noteq> other)"
| "admissible _ w = True"

inductive reachable :: "('n::linorder, 'e::linorder) world \<Rightarrow> bool" where
  start: "reachable init_world"
| step: "reachable w \<Longrightarrow> admissible c w \<Longrightarrow> reachable (after c w)"

text \<open>The calls that insert or erase nodes or edges, rename, merge or clear, and the
  graph object they are called on.\<close>

fun is_mutation :: "('n, 'e) call \<Rightarrow> bool" where
  "is_mutation (Insert_node g v) = True"
| "is_mutation (Insert_edge g src dst wt) = True"
| "is_mutation (Replace_node g old_data new_data) = True"
| "is_mutation (Merge_replace_node g old_data new_data) = True"
| "is_mutation (Erase_node g v) = True"
| "is_mutation (Erase_edge g src dst wt) = True"
| "is_mutation (Erase_edge_at g i) = True"
| "is_mutation (Erase_edge_span g i s) = True"
| "is_mutation (Clear g) = True"
| "is_mutation _ = False"

fun target :: "('n, 'e) call \<Rightarrow> gid" where
  "target (Insert_node g v) = g"
| "target (Insert_edge g src dst wt) = g"
| "target (Replace_node g old_data new_data) = g"
| "target (Merge_replace_node g old_data new_data) = g"
| "target (Erase_node g v) = g"
| "target (Erase_edge g src dst wt) = g"
| "target (Erase_edge_at g i) = g"
| "target (Erase_edge_span g i s) = g"
| "target (Clear g) = g"
| "target (Construct g) = g"
| "target (Construct_from g elems) = g"
| "target (Copy_construct g other) = g"
| "target (Move_construct g other) = g"
| "target (Copy_assignment g other) = g"
| "target (Move_assignment g other) = g"

subsection \<open>Copies\<close>

text \<open>The graph object \<open>g\<close> shows the same in \<open>w'\<close> as in \<open>w\<close>: node list, edge sequence and
  rendered text.\<close>

definition same_graph :: "gid \<Rightarrow> ('n, 'e) world \<Rightarrow> ('n, 'e) world \<Rightarrow> bool" where
  "same_graph g w w' \<longleftrightarrow>
     nodes g w' = nodes g w \<and> traverse g w' = traverse g w \<and>
     (\<forall>showN showE. render showN showE g w' = render showN showE g w)"

text \<open>In \<open>w'\<close> the graph object \<open>c\<close> is a copy of what \<open>g\<close> was in \<open>w\<close>: the two compare equal,
  \<open>c\<close> has the nodes and edges of \<open>g\<close>, \<open>g\<close> shows as before, and no node object and no edge
  object belongs to both.\<close>

definition independent_copy ::
  "gid \<Rightarrow> gid \<Rightarrow> ('n::linorder, 'e::linorder) world \<Rightarrow> ('n, 'e) world \<Rightarrow> bool" where
  "independent_copy c g w w' \<longleftrightarrow>
     world_ok w' \<and> graph_eq c g w' \<and> graph_eq g c w' \<and>
     nodes c w' = nodes g w \<and> traverse c w' = traverse g w \<and> same_graph g w w' \<and>
     set (nodes_m (graphs w' c)) \<inter> set (nodes_m (graphs w' g)) = {} \<and>
     edge_ptrs (graphs w' c) \<inter> edge_ptrs (graphs w' g) = {}"

section \<open>Verification\<close>

subsection \<open>The list functions that stand for \<open>std::set\<close>\<close>

lemma set_find_key:
  "sorted_wrt (<) (map key xs) \<Longrightarrow>
   set_find (\<lambda>y. key y < k) (\<lambda>y. k < key y) xs = List.find (\<lambda>y. key y = (k::'k::linorder)) xs"
proof (induction xs)
  case Nil
  then show ?case by simp
next
  case (Cons y ys)
  have later: "\<forall>z\<in>set ys. key y < key z" using Cons.prems by simp
  show ?case
  proof (cases "key y < k")
    case True
    then have "key y \<noteq> k" by auto
    then show ?thesis using Cons True by simp
  next
    case False
    show ?thesis
    proof (cases "k < key y")
      case True
      then have "\<forall>z\<in>set ys. key z \<noteq> k" using later by fastforce
      then have "List.find (\<lambda>y. key y = k) ys = None" by (simp add: find_None_iff)
      then show ?thesis using True False by auto
    next
      case nlt: False
      then have "key y = k" using False by simp
      then show ?thesis by simp
    qed
  qed
qed

lemma set_insert_cong:
  "(\<And>y. y \<in> set xs \<Longrightarrow> lt y x = lt' y x \<and> lt x y = lt' x y) \<Longrightarrow>
   set_insert lt x xs = set_insert lt' x xs"
  by (induction xs) auto

lemma set_find_cong:
  "(\<And>y. y \<in> set xs \<Longrightarrow> p y = p' y \<and> f y = f' y) \<Longrightarrow> set_find p f xs = set_find p' f' xs"
  by (induction xs) auto

lemma set_erase_cong:
  "(\<And>y. y \<in> set xs \<Longrightarrow> p y = p' y \<and> f y = f' y) \<Longrightarrow> set_erase p f xs = set_erase p' f' xs"
  by (induction xs) auto

lemma set_insert_subset: "set (set_insert lt x xs) \<subseteq> insert x (set xs)"
  by (induction xs) auto

lemma set_insert_sorted:
  "sorted_wrt (<) (map key xs) \<Longrightarrow>
   sorted_wrt (<) (map (key::'a \<Rightarrow> 'k::linorder) (set_insert (\<lambda>a b. key a < key b) x xs))"
proof (induction xs)
  case Nil
  then show ?case by simp
next
  case (Cons y ys)
  have sub: "set (set_insert (\<lambda>a b. key a < key b) x ys) \<subseteq> insert x (set ys)"
    by (rule set_insert_subset)
  show ?case using Cons sub by (auto simp: subset_iff)
qed

lemma set_insert_set:
  "sorted_wrt (<) (map key xs) \<Longrightarrow>
   set (set_insert (\<lambda>a b. (key::'a \<Rightarrow> 'k::linorder) a < key b) x xs) =
     (if key x \<in> key ` set xs then set xs else insert x (set xs))"
proof (induction xs)
  case Nil
  then show ?case by simp
next
  case (Cons y ys)
  show ?case
  proof (cases "key y < key x")
    case True
    then show ?thesis using Cons by auto
  next
    case False
    show ?thesis
    proof (cases "key x < key y")
      case True
      then have "key x \<notin> key ` set (y # ys)" using Cons.prems by fastforce
      then show ?thesis using True False by simp
    next
      case nlt: False
      then have "key x = key y" using False by simp
      then show ?thesis by auto
    qed
  qed
qed

lemma set_insert_present:
  "sorted_wrt (<) (map key xs) \<Longrightarrow> (key::'a \<Rightarrow> 'k::linorder) x \<in> key ` set xs \<Longrightarrow>
   set_insert (\<lambda>a b. key a < key b) x xs = xs"
proof (induction xs)
  case Nil
  then show ?case by simp
next
  case (Cons y ys)
  show ?case
  proof (cases "key y < key x")
    case True
    then show ?thesis using Cons by auto
  next
    case False
    have "\<not> key x < key y" using Cons.prems by fastforce
    then show ?thesis using False by simp
  qed
qed

lemma set_erase_key:
  "sorted_wrt (<) (map key xs) \<Longrightarrow>
   set_erase (\<lambda>y. key y < k) (\<lambda>y. k < key y) xs = filter (\<lambda>y. key y \<noteq> (k::'k::linorder)) xs"
proof (induction xs)
  case Nil
  then show ?case by simp
next
  case (Cons y ys)
  have later: "\<forall>z\<in>set ys. key y < key z" using Cons.prems by simp
  show ?case
  proof (cases "key y < k")
    case True
    then show ?thesis using Cons by simp
  next
    case False
    then have "\<forall>z\<in>set ys. key z \<noteq> k" using later by fastforce
    then have "filter (\<lambda>y. key y \<noteq> k) ys = ys" by (simp add: filter_id_conv)
    then show ?thesis using False by auto
  qed
qed

lemma find_if_le: "find_if P xs \<le> length xs"
  by (induction xs) auto

lemma find_if_end: "find_if P xs = length xs \<longleftrightarrow> (\<forall>x\<in>set xs. \<not> P x)"
proof (induction xs)
  case Nil
  then show ?case by simp
next
  case (Cons y ys)
  then show ?case using find_if_le [of P ys] by auto
qed

lemma find_if_nth: "find_if P xs < length xs \<Longrightarrow> P (xs ! find_if P xs)"
  by (induction xs) (auto split: if_splits)

lemma find_if_first: "i < find_if P xs \<Longrightarrow> \<not> P (xs ! i)"
proof (induction xs arbitrary: i)
  case Nil
  then show ?case by simp
next
  case (Cons y ys)
  then show ?case by (cases i) (auto split: if_splits)
qed

lemma find_if_map: "find_if P (map f xs) = find_if (P \<circ> f) xs"
  by (induction xs) auto

subsection \<open>Lookups in a well-formed graph\<close>

lemma edge_comp_less: "edge_comp e e' = ordering_less \<longleftrightarrow> weight_m e < weight_m e'"
  by (cases e; cases e') (auto simp: edge_comp_def is_weighted_def three_way_def)

lemma compare_edges_set_key:
  assumes "inj_on (deref w) A" "fst t \<in> A" "fst (snd t) \<in> A" "fst u \<in> A" "fst (snd u) \<in> A"
  shows "compare_edges_set w t u \<longleftrightarrow> tuple_key w t < tuple_key w u"
proof -
  obtain l0 l1 l2 where t: "t = (l0, l1, l2)" by (cases t) auto
  obtain r0 r1 r2 where u: "u = (r0, r1, r2)" by (cases u) auto
  have a: "l0 = r0 \<longleftrightarrow> deref w l0 = deref w r0"
    using assms t u by (auto dest: inj_onD)
  have b: "l1 = r1 \<longleftrightarrow> deref w l1 = deref w r1"
    using assms t u by (auto dest: inj_onD)
  show ?thesis
    unfolding t u tuple_key_def
    using a b by (auto simp: compare_shared_ptr_def edge_comp_less)
qed

lemma graph_ok_inj: "graph_ok w g \<Longrightarrow> inj_on (deref w) (set (nodes_m g))"
proof -
  assume "graph_ok w g"
  then have "sorted_wrt (<) (map (deref w) (nodes_m g))" by (simp add: graph_ok_def nodes_ok_def)
  then have "distinct (map (deref w) (nodes_m g))" by (simp add: strict_sorted_iff)
  then show ?thesis by (simp add: distinct_map)
qed

lemma find_node_ptr_find:
  "graph_ok w (graphs w this) \<Longrightarrow>
   find_node_ptr this v w = List.find (\<lambda>p. deref w p = v) (nodes_m (graphs w this))"
  unfolding find_node_ptr_def compare_ptr_value_def compare_value_ptr_def
  by (rule set_find_key) (simp add: graph_ok_def nodes_ok_def)

lemma find_node_ptr_Some:
  "graph_ok w (graphs w this) \<Longrightarrow> find_node_ptr this v w = Some p \<Longrightarrow>
   p \<in> set (nodes_m (graphs w this)) \<and> deref w p = v"
  by (auto simp: find_node_ptr_find find_Some_iff)

lemma find_node_ptr_None:
  "graph_ok w (graphs w this) \<Longrightarrow>
   find_node_ptr this v w = None \<longleftrightarrow> v \<notin> set (nodes this w)"
  by (auto simp: find_node_ptr_find find_None_iff nodes_def)

lemma is_node_find: "is_node this v w \<longleftrightarrow> find_node_ptr this v w \<noteq> None"
  by (simp add: is_node_def find_node_ptr_def set_contains_def)

lemma is_node_iff:
  "graph_ok w (graphs w this) \<Longrightarrow> is_node this v w \<longleftrightarrow> v \<in> set (nodes this w)"
  by (simp add: is_node_find find_node_ptr_None)

lemma traverse_keys:
  "graph_ok w (graphs w this) \<Longrightarrow>
   edge_records this w = map (tuple_key w) (edges_m (graphs w this))"
  by (auto simp: edge_records_def traverse_def graph_ok_def edges_ok_def tuple_key_def tuple_value_def triple_def
      get_nodes_def get_weight_def Let_def)

lemma world_ok_graph: "world_ok w \<Longrightarrow> graph_ok w (graphs w i)"
  by (simp add: world_ok_def)

lemma init_world_ok: "world_ok init_world"
  by (simp add: world_ok_def graph_ok_def nodes_ok_def edges_ok_def init_world_def edge_ptrs_def)

subsection \<open>Stores that agree on a graph\<close>

lemma deref_agree: "node_mem w' p = node_mem w p \<Longrightarrow> deref w' p = deref w p"
  by (simp add: deref_def)

lemma deref_edge_agree: "edge_mem w' p = edge_mem w p \<Longrightarrow> deref_edge w' p = deref_edge w p"
  by (simp add: deref_edge_def)

lemma map_deref_agree:
  "\<forall>p\<in>set ns. node_mem w' p = node_mem w p \<Longrightarrow> map (deref w') ns = map (deref w) ns"
  by (simp add: deref_def)

lemma nodes_ok_agree:
  "nodes_ok w ns \<Longrightarrow> \<forall>p\<in>set ns. node_mem w' p = node_mem w p \<Longrightarrow> nodes_ok w' ns"
proof -
  assume ok: "nodes_ok w ns" and ag: "\<forall>p\<in>set ns. node_mem w' p = node_mem w p"
  have m: "map (deref w') ns = map (deref w) ns" by (rule map_deref_agree [OF ag])
  have s: "sorted_wrt (<) (map (deref w') ns)" unfolding m using ok by (simp add: nodes_ok_def)
  have "set ns \<subseteq> dom (node_mem w')" using ok ag by (auto simp: nodes_ok_def dom_def)
  then show ?thesis using s by (simp add: nodes_ok_def)
qed

lemma tuple_key_agree:
  "node_mem w' (fst t) = node_mem w (fst t) \<Longrightarrow>
   node_mem w' (fst (snd t)) = node_mem w (fst (snd t)) \<Longrightarrow>
   edge_mem w' (snd (snd t)) = edge_mem w (snd (snd t)) \<Longrightarrow> tuple_key w' t = tuple_key w t"
  by (simp add: tuple_key_def deref_def deref_edge_def)

lemma map_tuple_key_agree:
  assumes "\<forall>t\<in>set es. fst t \<in> N \<and> fst (snd t) \<in> N"
    and "\<forall>p\<in>N. node_mem w' p = node_mem w p"
    and "\<forall>t\<in>set es. edge_mem w' (snd (snd t)) = edge_mem w (snd (snd t))"
  shows "map (tuple_key w') es = map (tuple_key w) es"
  using assms by (auto intro!: tuple_key_agree)

lemma edges_ok_agree:
  assumes ok: "edges_ok w N es"
    and nm: "\<forall>p\<in>N. node_mem w' p = node_mem w p"
    and em: "\<forall>t\<in>set es. edge_mem w' (snd (snd t)) = edge_mem w (snd (snd t))"
  shows "edges_ok w' N es"
proof -
  have ends: "\<forall>t\<in>set es. fst t \<in> N \<and> fst (snd t) \<in> N" using ok by (simp add: edges_ok_def)
  have keys: "map (tuple_key w') es = map (tuple_key w) es"
    by (rule map_tuple_key_agree [OF ends nm em])
  have cells: "\<forall>t\<in>set es. snd (snd t) \<in> dom (edge_mem w') \<and>
      get_nodes (deref_edge w' (snd (snd t))) = (deref w' (fst t), deref w' (fst (snd t)))"
  proof
    fix t assume t: "t \<in> set es"
    have e: "edge_mem w' (snd (snd t)) = edge_mem w (snd (snd t))" using em t by simp
    have a: "node_mem w' (fst t) = node_mem w (fst t)" using nm ends t by simp
    have b: "node_mem w' (fst (snd t)) = node_mem w (fst (snd t))" using nm ends t by simp
    have "snd (snd t) \<in> dom (edge_mem w) \<and>
      get_nodes (deref_edge w (snd (snd t))) = (deref w (fst t), deref w (fst (snd t)))"
      using ok t by (simp add: edges_ok_def)
    then show "snd (snd t) \<in> dom (edge_mem w') \<and>
      get_nodes (deref_edge w' (snd (snd t))) = (deref w' (fst t), deref w' (fst (snd t)))"
      using e a b by (simp add: dom_def deref_def deref_edge_def)
  qed
  have s: "sorted_wrt (<) (map (tuple_key w') es)" unfolding keys using ok by (simp add: edges_ok_def)
  have i: "inj_on (snd \<circ> snd) (set es)" using ok by (simp add: edges_ok_def)
  show ?thesis
    unfolding edges_ok_def using ends cells s i by blast
qed

lemma edges_ok_mono: "edges_ok w N es \<Longrightarrow> N \<subseteq> N' \<Longrightarrow> edges_ok w N' es"
  by (auto simp: edges_ok_def)

lemma graph_ok_agree:
  assumes ok: "graph_ok w g"
    and nm: "\<forall>p\<in>set (nodes_m g). node_mem w' p = node_mem w p"
    and em: "\<forall>p\<in>edge_ptrs g. edge_mem w' p = edge_mem w p"
  shows "graph_ok w' g"
proof -
  have e: "\<forall>t\<in>set (edges_m g). edge_mem w' (snd (snd t)) = edge_mem w (snd (snd t))"
    using em by (simp add: edge_ptrs_def)
  have a: "nodes_ok w' (nodes_m g)"
    by (rule nodes_ok_agree [OF _ nm]) (use ok in \<open>simp add: graph_ok_def\<close>)
  have b: "edges_ok w' (set (nodes_m g)) (edges_m g)"
    by (rule edges_ok_agree [OF _ nm e]) (use ok in \<open>simp add: graph_ok_def\<close>)
  show ?thesis using a b by (simp add: graph_ok_def)
qed

lemma graph_ok_node_dom: "graph_ok w g \<Longrightarrow> p \<in> set (nodes_m g) \<Longrightarrow> p \<in> dom (node_mem w)"
  by (auto simp: graph_ok_def nodes_ok_def)

lemma graph_ok_edge_dom: "graph_ok w g \<Longrightarrow> p \<in> edge_ptrs g \<Longrightarrow> p \<in> dom (edge_mem w)"
  by (auto simp: graph_ok_def edges_ok_def edge_ptrs_def)

lemma world_ok_node_lt: "world_ok w \<Longrightarrow> p \<in> set (nodes_m (graphs w i)) \<Longrightarrow> p < brk w"
  using graph_ok_node_dom [of w "graphs w i" p] by (simp add: world_ok_def)

lemma world_ok_edge_lt: "world_ok w \<Longrightarrow> p \<in> edge_ptrs (graphs w i) \<Longrightarrow> p < brk w"
  using graph_ok_edge_dom [of w "graphs w i" p] by (simp add: world_ok_def)

subsection \<open>What a frame preserves\<close>

lemma frame_other_graph:
  assumes ok: "world_ok w" and fr: "frame this w w'" and j: "j \<noteq> this"
  shows "graphs w' j = graphs w j"
    and "\<forall>p\<in>set (nodes_m (graphs w j)). node_mem w' p = node_mem w p"
    and "\<forall>p\<in>edge_ptrs (graphs w j). edge_mem w' p = edge_mem w p"
proof -
  show "graphs w' j = graphs w j" using fr j by (simp add: frame_def)
  show "\<forall>p\<in>set (nodes_m (graphs w j)). node_mem w' p = node_mem w p"
    using fr graph_ok_node_dom [OF world_ok_graph [OF ok, of j]] by (simp add: frame_def)
  show "\<forall>p\<in>edge_ptrs (graphs w j). edge_mem w' p = edge_mem w p"
  proof
    fix p assume p: "p \<in> edge_ptrs (graphs w j)"
    have d: "p \<in> dom (edge_mem w)" using graph_ok_edge_dom [OF world_ok_graph [OF ok, of j] p] .
    have "edge_ptrs (graphs w j) \<inter> edge_ptrs (graphs w this) = {}"
      using ok j by (simp add: world_ok_def)
    then have "p \<notin> edge_ptrs (graphs w this)" using p by auto
    then show "edge_mem w' p = edge_mem w p" using fr d by (simp add: frame_def)
  qed
qed

lemma frame_world_ok:
  assumes ok: "world_ok w" and fr: "frame this w w'" and this_ok: "graph_ok w' (graphs w' this)"
  shows "world_ok w'"
proof -
  have g: "graph_ok w' (graphs w' i)" for i
  proof (cases "i = this")
    case True
    then show ?thesis using this_ok by simp
  next
    case False
    have "graph_ok w' (graphs w i)"
      by (rule graph_ok_agree [OF world_ok_graph [OF ok] frame_other_graph(2,3) [OF ok fr False]])
    then show ?thesis using frame_other_graph(1) [OF ok fr False] by simp
  qed
  have sub: "edge_ptrs (graphs w' this) \<subseteq> edge_ptrs (graphs w this) \<union> {p. brk w \<le> p}"
    using fr by (simp add: frame_def)
  have one: "edge_ptrs (graphs w' this) \<inter> edge_ptrs (graphs w' j) = {}" if j: "j \<noteq> this" for j
  proof -
    have e: "graphs w' j = graphs w j" using frame_other_graph(1) [OF ok fr j] .
    have a: "edge_ptrs (graphs w this) \<inter> edge_ptrs (graphs w j) = {}"
      using ok j by (simp add: world_ok_def)
    have b: "\<forall>p\<in>edge_ptrs (graphs w j). p < brk w" using world_ok_edge_lt [OF ok] by blast
    show ?thesis unfolding e using sub a b by fastforce
  qed
  have d: "edge_ptrs (graphs w' i) \<inter> edge_ptrs (graphs w' j) = {}" if ij: "i \<noteq> j" for i j
  proof (cases "i = this")
    case True
    then show ?thesis using one [of j] ij by simp
  next
    case False
    show ?thesis
    proof (cases "j = this")
      case True
      then show ?thesis using one [of i] False by (simp add: Int_commute)
    next
      case jf: False
      show ?thesis
        using frame_other_graph(1) [OF ok fr False] frame_other_graph(1) [OF ok fr jf] ok ij
        by (simp add: world_ok_def)
    qed
  qed
  show ?thesis
    unfolding world_ok_def using g d fr by (simp add: frame_def)
qed

lemma frame_refl: "world_ok w \<Longrightarrow> frame this w w"
  by (auto simp: frame_def world_ok_def)

lemma frame_trans:
  assumes ok: "world_ok w" and a: "frame this w w1" and b: "frame this w1 w2"
  shows "frame this w w2"
proof -
  have sub1: "edge_ptrs (graphs w1 this) \<subseteq> edge_ptrs (graphs w this) \<union> {p. brk w \<le> p}"
    using a by (simp add: frame_def)
  have sub2: "edge_ptrs (graphs w2 this) \<subseteq> edge_ptrs (graphs w1 this) \<union> {p. brk w1 \<le> p}"
    using b by (simp add: frame_def)
  have le: "brk w \<le> brk w1" "brk w1 \<le> brk w2" using a b by (simp_all add: frame_def)
  have nm: "\<forall>p\<in>dom (node_mem w). node_mem w2 p = node_mem w p"
  proof
    fix p assume p: "p \<in> dom (node_mem w)"
    then have e: "node_mem w1 p = node_mem w p" using a by (simp add: frame_def)
    then have "p \<in> dom (node_mem w1)" using p by (auto simp: dom_def)
    then have "node_mem w2 p = node_mem w1 p" using b by (simp add: frame_def)
    then show "node_mem w2 p = node_mem w p" using e by simp
  qed
  have em: "\<forall>p\<in>dom (edge_mem w). p \<notin> edge_ptrs (graphs w this) \<longrightarrow> edge_mem w2 p = edge_mem w p"
  proof (intro ballI impI)
    fix p assume p: "p \<in> dom (edge_mem w)" and n: "p \<notin> edge_ptrs (graphs w this)"
    have e: "edge_mem w1 p = edge_mem w p" using a p n by (simp add: frame_def)
    then have d: "p \<in> dom (edge_mem w1)" using p by (auto simp: dom_def)
    have "p < brk w" using ok p by (simp add: world_ok_def)
    then have "p \<notin> edge_ptrs (graphs w1 this)" using sub1 n by auto
    then have "edge_mem w2 p = edge_mem w1 p" using b d by (simp add: frame_def)
    then show "edge_mem w2 p = edge_mem w p" using e by simp
  qed
  have sub: "edge_ptrs (graphs w2 this) \<subseteq> edge_ptrs (graphs w this) \<union> {p. brk w \<le> p}"
    using sub1 sub2 le by fastforce
  show ?thesis
    unfolding frame_def using a b nm em sub le by (simp add: frame_def)
qed

subsection \<open>Writing the members of a graph object\<close>

lemma put_nodes_fields [simp]:
  "node_mem (put_nodes this ns w) = node_mem w"
  "edge_mem (put_nodes this ns w) = edge_mem w"
  "brk (put_nodes this ns w) = brk w"
  "graphs (put_nodes this ns w) this = (graphs w this)\<lparr>nodes_m := ns\<rparr>"
  "j \<noteq> this \<Longrightarrow> graphs (put_nodes this ns w) j = graphs w j"
  by (simp_all add: put_nodes_def)

lemma put_edges_fields [simp]:
  "node_mem (put_edges this es w) = node_mem w"
  "edge_mem (put_edges this es w) = edge_mem w"
  "brk (put_edges this es w) = brk w"
  "graphs (put_edges this es w) this = (graphs w this)\<lparr>edges_m := es\<rparr>"
  "j \<noteq> this \<Longrightarrow> graphs (put_edges this es w) j = graphs w j"
  by (simp_all add: put_edges_def)

lemma put_derefs [simp]:
  "deref (put_nodes this ns w) = deref w"
  "deref (put_edges this es w) = deref w"
  "deref_edge (put_nodes this ns w) = deref_edge w"
  "deref_edge (put_edges this es w) = deref_edge w"
  by (simp_all add: fun_eq_iff deref_def deref_edge_def)

lemma put_keys [simp]:
  "tuple_key (put_nodes this ns w) = tuple_key w"
  "tuple_key (put_edges this es w) = tuple_key w"
  "compare_shared_ptr (put_nodes this ns w) = compare_shared_ptr w"
  "compare_shared_ptr (put_edges this es w) = compare_shared_ptr w"
  by (simp_all add: fun_eq_iff tuple_key_def compare_shared_ptr_def)

lemma put_oks [simp]:
  "nodes_ok (put_nodes this ns w) = nodes_ok w"
  "nodes_ok (put_edges this es w) = nodes_ok w"
  "edges_ok (put_nodes this ns w) = edges_ok w"
  "edges_ok (put_edges this es w) = edges_ok w"
  by (simp_all add: fun_eq_iff nodes_ok_def edges_ok_def)

lemma put_graph_ok [simp]:
  "graph_ok (put_nodes this ns w) = graph_ok w"
  "graph_ok (put_edges this es w) = graph_ok w"
  by (simp_all add: fun_eq_iff graph_ok_def)

text \<open>A call that only rewrites the two members of \<open>this\<close>, keeping edge objects it had.\<close>

lemma frame_members:
  assumes ok: "world_ok w"
    and mem: "node_mem w' = node_mem w" "edge_mem w' = edge_mem w" "brk w' = brk w"
    and others: "\<And>j. j \<noteq> this \<Longrightarrow> graphs w' j = graphs w j"
    and sub: "edge_ptrs (graphs w' this) \<subseteq> edge_ptrs (graphs w this)"
  shows "frame this w w'"
  unfolding frame_def using ok mem others sub by (auto simp: world_ok_def)

lemma edges_ok_subset:
  assumes ok: "edges_ok w N es" and f: "es' = filter P es"
  shows "edges_ok w N es'"
proof -
  have s: "sorted_wrt (<) (map (tuple_key w) (filter P es))"
    using ok by (simp add: edges_ok_def sorted_wrt_map sorted_wrt_filter)
  have i: "inj_on (snd \<circ> snd) (set (filter P es))"
    using ok by (auto simp: edges_ok_def intro: inj_on_subset)
  show ?thesis unfolding f edges_ok_def using ok s i by (auto simp: edges_ok_def)
qed

lemma erase_at_filter_ex: "distinct xs \<Longrightarrow> erase_at i xs = filter (\<lambda>x. x \<notin> set (take 1 (drop i xs))) xs"
proof (induction xs arbitrary: i)
  case Nil
  then show ?case by (simp add: erase_at_def)
next
  case (Cons y ys)
  show ?case
  proof (cases i)
    case 0
    have "filter (\<lambda>x. x \<noteq> y) ys = ys" using Cons.prems by (auto simp: filter_id_conv)
    then show ?thesis using 0 by (simp add: erase_at_def)
  next
    case (Suc k)
    have a: "erase_at k ys = filter (\<lambda>x. x \<notin> set (take 1 (drop k ys))) ys"
      using Cons by simp
    have "y \<notin> set (take 1 (drop k ys))" using Cons.prems by (auto dest: in_set_takeD in_set_dropD)
    then show ?thesis using Suc a by (simp add: erase_at_def)
  qed
qed

lemma erase_range_filter_ex:
  "distinct xs \<Longrightarrow> i \<le> s \<Longrightarrow>
   erase_range i s xs = filter (\<lambda>x. x \<notin> set (take (s - i) (drop i xs))) xs"
proof -
  assume d: "distinct xs" and le: "i \<le> s"
  define A where "A = take i xs"
  define B where "B = take (s - i) (drop i xs)"
  define C where "C = drop s xs"
  have dd: "drop (s - i) (drop i xs) = C" using le by (simp add: C_def)
  have "drop i xs = B @ C"
    using append_take_drop_id [of "s - i" "drop i xs"] dd by (simp add: B_def)
  then have xs: "xs = A @ B @ C"
    using append_take_drop_id [of i xs] by (simp add: A_def)
  have d3: "distinct (A @ B @ C)" using d xs by simp
  have a: "filter (\<lambda>x. x \<notin> set B) A = A" using d3 by (auto simp: filter_id_conv)
  have b: "filter (\<lambda>x. x \<notin> set B) C = C" using d3 by (auto simp: filter_id_conv)
  have c: "filter (\<lambda>x. x \<notin> set B) B = []" by simp
  have "filter (\<lambda>x. x \<notin> set B) (A @ B @ C) = A @ C"
    unfolding filter_append a b c by simp
  then have "filter (\<lambda>x. x \<notin> set B) xs = A @ C" using xs by simp
  then show ?thesis by (simp add: erase_range_def A_def B_def C_def)
qed

lemma edges_ok_distinct: "edges_ok w N es \<Longrightarrow> distinct es"
proof -
  assume "edges_ok w N es"
  then have "sorted_wrt (<) (map (tuple_key w) es)" by (simp add: edges_ok_def)
  then have "distinct (map (tuple_key w) es)" by (simp add: strict_sorted_iff)
  then show ?thesis by (simp add: distinct_map)
qed

subsection \<open>Allocation\<close>

lemma make_shared_fields:
  "make_shared v w = (p, w1) \<Longrightarrow>
   p = brk w \<and> node_mem w1 = (node_mem w)(brk w \<mapsto> v) \<and> edge_mem w1 = edge_mem w \<and>
   brk w1 = Suc (brk w) \<and> graphs w1 = graphs w"
  by (auto simp: make_shared_def)

lemma make_shared_edge_fields:
  "make_shared_edge e w = (p, w1) \<Longrightarrow>
   p = brk w \<and> edge_mem w1 = (edge_mem w)(brk w \<mapsto> e) \<and> node_mem w1 = node_mem w \<and>
   brk w1 = Suc (brk w) \<and> graphs w1 = graphs w"
  by (auto simp: make_shared_edge_def)

lemma edge_ptrs_upd [simp]:
  "edge_ptrs (g\<lparr>nodes_m := ns\<rparr>) = edge_ptrs g"
  "edge_ptrs (g\<lparr>edges_m := es\<rparr>) = (snd \<circ> snd) ` set es"
  by (simp_all add: edge_ptrs_def)

lemma nodes_sorted: "world_ok w \<Longrightarrow> sorted_wrt (<) (nodes this w)"
  using world_ok_graph [of w this] by (simp add: graph_ok_def nodes_ok_def nodes_def)

lemma records_sorted: "world_ok w \<Longrightarrow> sorted_wrt (<) (edge_records this w)"
  using world_ok_graph [of w this] traverse_keys [of w this]
  by (simp add: graph_ok_def edges_ok_def)

text \<open>The step shared by \<open>insert_node\<close>, the range constructor and \<open>deep_copy\<close>: a new
  shared pointer is offered to \<open>nodes_\<close>.\<close>

lemma add_node:
  assumes ok: "world_ok w" and ms: "make_shared v w = (p, w1)"
    and w': "w' = nodes_insert this p w1"
  shows "frame this w w'"
    and "graph_ok w' (graphs w' this)"
    and "set (nodes this w') = insert v (set (nodes this w))"
    and "edges_m (graphs w' this) = edges_m (graphs w this)"
    and "edge_records this w' = edge_records this w"
    and "v \<notin> set (nodes this w) \<Longrightarrow> set (nodes_m (graphs w' this)) = insert (brk w) (set (nodes_m (graphs w this)))"
proof -
  let ?ns = "nodes_m (graphs w this)"
  let ?es = "edges_m (graphs w this)"
  let ?ns' = "set_insert (\<lambda>a b. deref w1 a < deref w1 b) p ?ns"
  note f = make_shared_fields [OF ms]
  have g: "graph_ok w (graphs w this)" by (rule world_ok_graph [OF ok])
  have p: "p = brk w" using f by simp
  have lt: "\<forall>q\<in>dom (node_mem w). q < brk w" using ok by (simp add: world_ok_def)
  have old: "\<forall>q\<in>dom (node_mem w). node_mem w1 q = node_mem w q" using f lt by auto
  have nsdom: "set ?ns \<subseteq> dom (node_mem w)" using g by (simp add: graph_ok_def nodes_ok_def)
  have agree: "\<forall>q\<in>set ?ns. node_mem w1 q = node_mem w q" using old nsdom by blast
  have m: "map (deref w1) ?ns = map (deref w) ?ns" by (rule map_deref_agree [OF agree])
  have dp: "deref w1 p = v" using f by (simp add: deref_def)
  have n1: "nodes_ok w1 ?ns"
    by (rule nodes_ok_agree [OF _ agree]) (use g in \<open>simp add: graph_ok_def\<close>)
  then have srt: "sorted_wrt (<) (map (deref w1) ?ns)" by (simp add: nodes_ok_def)
  have w'eq: "w' = put_nodes this ?ns' w1"
    unfolding w' nodes_insert_def compare_shared_ptr_def using f by simp
  have sub: "set ?ns' \<subseteq> insert p (set ?ns)" by (rule set_insert_subset)
  have sup: "set ?ns \<subseteq> set ?ns'" using set_insert_set [OF srt, of p] by auto
  have srt': "sorted_wrt (<) (map (deref w1) ?ns')" by (rule set_insert_sorted [OF srt])
  have dom1: "dom (node_mem w1) = insert p (dom (node_mem w))" using f by auto
  have n': "nodes_ok w1 ?ns'"
    unfolding nodes_ok_def using sub nsdom dom1 srt' by auto
  have em: "\<forall>t\<in>set ?es. edge_mem w1 (snd (snd t)) = edge_mem w (snd (snd t))" using f by simp
  have e1: "edges_ok w1 (set ?ns) ?es"
    by (rule edges_ok_agree [OF _ agree em]) (use g in \<open>simp add: graph_ok_def\<close>)
  have e': "edges_ok w1 (set ?ns') ?es" by (rule edges_ok_mono [OF e1 sup])
  have gr: "graphs w' this = (graphs w this)\<lparr>nodes_m := ?ns'\<rparr>" using w'eq f by simp
  show "graph_ok w' (graphs w' this)"
    unfolding gr using n' e' by (simp add: graph_ok_def w'eq)
  show "edges_m (graphs w' this) = edges_m (graphs w this)" using gr by simp
  show "frame this w w'"
    unfolding frame_def using w'eq f old ok gr
    by (auto simp: world_ok_def dom_def)
  have "set (map (deref w1) ?ns') = insert v (set (map (deref w) ?ns))"
  proof -
    have "set (map (deref w1) ?ns') = deref w1 ` set ?ns'" by simp
    also have "\<dots> = insert v (deref w1 ` set ?ns)"
      using set_insert_set [OF srt, of p] dp by (auto split: if_splits)
    also have "\<dots> = insert v (set (map (deref w) ?ns))" using m by (metis list.set_map)
    finally show ?thesis .
  qed
  then show "set (nodes this w') = insert v (set (nodes this w))"
    by (simp add: nodes_def gr w'eq)
  have keys: "map (tuple_key w1) ?es = map (tuple_key w) ?es"
    by (rule map_tuple_key_agree [OF _ agree em]) (use g in \<open>simp add: graph_ok_def edges_ok_def\<close>)
  have "graph_ok w' (graphs w' this)" by fact
  then have "edge_records this w' = map (tuple_key w') (edges_m (graphs w' this))"
    by (rule traverse_keys)
  also have "\<dots> = map (tuple_key w) ?es" using keys f by (simp add: w'eq)
  also have "\<dots> = edge_records this w" using traverse_keys [OF g] by simp
  finally show "edge_records this w' = edge_records this w" .
  show "set (nodes_m (graphs w' this)) = insert (brk w) (set (nodes_m (graphs w this)))"
    if "v \<notin> set (nodes this w)"
  proof -
    have "v \<notin> deref w1 ` set ?ns" using that m by (metis list.set_map nodes_def)
    then have "set ?ns' = insert p (set ?ns)" using set_insert_set [OF srt, of p] dp by simp
    then show ?thesis using gr p by simp
  qed
qed

subsection \<open>Calls that insert a node or remove edges\<close>

lemma insert_node_spec:
  assumes ok: "world_ok w" and call: "insert_node this v w = (r, w')"
  shows "world_ok w'" and "frame this w w'"
    and "r \<longleftrightarrow> v \<notin> set (nodes this w)"
    and "set (nodes this w') = insert v (set (nodes this w))"
    and "edge_records this w' = edge_records this w"
proof -
  have g: "graph_ok w (graphs w this)" by (rule world_ok_graph [OF ok])
  have c: "set_contains (\<lambda>p. compare_ptr_value w p v) (\<lambda>p. compare_value_ptr w v p)
             (nodes_m (graphs w this)) \<longleftrightarrow> v \<in> set (nodes this w)"
    using is_node_iff [OF g, of v] by (simp add: is_node_def)
  have main: "world_ok w' \<and> frame this w w' \<and> (r \<longleftrightarrow> v \<notin> set (nodes this w)) \<and>
      set (nodes this w') = insert v (set (nodes this w)) \<and>
      edge_records this w' = edge_records this w"
  proof (cases "v \<in> set (nodes this w)")
    case True
    then have "r = False" "w' = w" using call c by (simp_all add: insert_node_def)
    then show ?thesis using ok True frame_refl [OF ok] by auto
  next
    case False
    obtain p w1 where ms: "make_shared v w = (p, w1)" by (cases "make_shared v w") auto
    have r: "r = True" and w': "w' = nodes_insert this p w1"
      using call c False ms by (simp_all add: insert_node_def)
    note a = add_node [OF ok ms w']
    have "world_ok w'" by (rule frame_world_ok [OF ok a(1) a(2)])
    then show ?thesis using a r False by simp
  qed
  show "world_ok w'" "frame this w w'" "r \<longleftrightarrow> v \<notin> set (nodes this w)"
    "set (nodes this w') = insert v (set (nodes this w))"
    "edge_records this w' = edge_records this w"
    using main by simp_all
qed

text \<open>Replacing \<open>edges_\<close> by a selection of its tuples.\<close>

lemma put_edges_filter:
  assumes ok: "world_ok w" and w': "w' = put_edges this (filter P (edges_m (graphs w this))) w"
  shows "world_ok w'" and "frame this w w'"
    and "nodes this w' = nodes this w"
    and "edge_records this w' = map (tuple_key w) (filter P (edges_m (graphs w this)))"
proof -
  let ?es = "edges_m (graphs w this)"
  have g: "graph_ok w (graphs w this)" by (rule world_ok_graph [OF ok])
  have e: "edges_ok w (set (nodes_m (graphs w this))) (filter P ?es)"
    by (rule edges_ok_subset [OF _ refl]) (use g in \<open>simp add: graph_ok_def\<close>)
  have g': "graph_ok w' (graphs w' this)"
    using g e by (simp add: w' graph_ok_def)
  show fr: "frame this w w'"
    by (rule frame_members [OF ok]) (auto simp: w' edge_ptrs_def)
  show "world_ok w'" by (rule frame_world_ok [OF ok fr g'])
  show "nodes this w' = nodes this w" by (simp add: nodes_def w')
  show "edge_records this w' = map (tuple_key w) (filter P ?es)"
    using traverse_keys [OF g'] by (simp add: w')
qed

lemma map_erase_at: "map f (erase_at i xs) = erase_at i (map f xs)"
  by (simp add: erase_at_def take_map drop_map)

lemma map_erase_range: "map f (erase_range i s xs) = erase_range i s (map f xs)"
  by (simp add: erase_range_def take_map drop_map)

lemma graph_ok_distinct: "graph_ok w g \<Longrightarrow> distinct (edges_m g)"
  by (auto simp: graph_ok_def dest: edges_ok_distinct)

lemma erase_edge_it_spec:
  assumes ok: "world_ok w" and call: "erase_edge_it this i w = (r, w')"
  shows "world_ok w'" and "frame this w w'" and "r = i"
    and "nodes this w' = nodes this w"
    and "edge_records this w' = erase_at i (edge_records this w)"
proof -
  let ?es = "edges_m (graphs w this)"
  have g: "graph_ok w (graphs w this)" by (rule world_ok_graph [OF ok])
  have d: "distinct ?es" by (rule graph_ok_distinct [OF g])
  have "w' = put_edges this (erase_at i ?es) w" using call by (auto simp: erase_edge_it_def)
  then have w': "w' = put_edges this (filter (\<lambda>x. x \<notin> set (take 1 (drop i ?es))) ?es) w"
    unfolding erase_at_filter_ex [OF d, of i] .
  note a = put_edges_filter [OF ok w']
  show "world_ok w'" "frame this w w'" "nodes this w' = nodes this w" by (rule a)+
  show "r = i" using call by (simp add: erase_edge_it_def)
  show "edge_records this w' = erase_at i (edge_records this w)"
    unfolding a(4) traverse_keys [OF g] erase_at_filter_ex [OF d, of i, symmetric]
    by (rule map_erase_at)
qed

lemma erase_edge_range_spec:
  assumes ok: "world_ok w" and call: "erase_edge_range this i s w = (r, w')" and le: "i \<le> s"
  shows "world_ok w'" and "frame this w w'" and "r = i"
    and "nodes this w' = nodes this w"
    and "edge_records this w' = erase_range i s (edge_records this w)"
proof -
  let ?es = "edges_m (graphs w this)"
  have g: "graph_ok w (graphs w this)" by (rule world_ok_graph [OF ok])
  have d: "distinct ?es" by (rule graph_ok_distinct [OF g])
  have "w' = put_edges this (erase_range i s ?es) w"
    using call by (auto simp: erase_edge_range_def)
  then have w': "w' = put_edges this (filter (\<lambda>x. x \<notin> set (take (s - i) (drop i ?es))) ?es) w"
    unfolding erase_range_filter_ex [OF d le] .
  note a = put_edges_filter [OF ok w']
  show "world_ok w'" "frame this w w'" "nodes this w' = nodes this w" by (rule a)+
  show "r = i" using call by (simp add: erase_edge_range_def)
  show "edge_records this w' = erase_range i s (edge_records this w)"
    unfolding a(4) traverse_keys [OF g] erase_range_filter_ex [OF d le, symmetric]
    by (rule map_erase_range)
qed

lemma clear_spec:
  assumes ok: "world_ok w"
  shows "world_ok (clear this w)" and "frame this w (clear this w)"
    and "nodes this (clear this w) = []" and "edge_records this (clear this w) = []"
    and "graphs (clear this w) this = \<lparr>nodes_m = [], edges_m = []\<rparr>"
proof -
  have g': "graph_ok (clear this w) (graphs (clear this w) this)"
    by (simp add: clear_def graph_ok_def nodes_ok_def edges_ok_def)
  show fr: "frame this w (clear this w)"
    by (rule frame_members [OF ok]) (auto simp: clear_def edge_ptrs_def)
  show "world_ok (clear this w)" by (rule frame_world_ok [OF ok fr g'])
  show "nodes this (clear this w) = []" by (simp add: nodes_def clear_def)
  show "edge_records this (clear this w) = []"
    by (simp add: edge_records_def traverse_def clear_def)
  show "graphs (clear this w) this = \<lparr>nodes_m = [], edges_m = []\<rparr>"
    by (cases "graphs w this") (simp add: clear_def)
qed

lemma graph_members: "g\<lparr>nodes_m := ns, edges_m := es\<rparr> = \<lparr>nodes_m = ns, edges_m = es\<rparr>"
  by (cases g) simp

lemma graph_default_clear: "graph_default this w = clear this w"
  by (simp add: graph_default_def clear_def put_nodes_def put_edges_def graph_members)

lemma nodes_ok_inj: "nodes_ok w ns \<Longrightarrow> inj_on (deref w) (set ns)"
proof -
  assume "nodes_ok w ns"
  then have "distinct (map (deref w) ns)" by (simp add: nodes_ok_def strict_sorted_iff)
  then show ?thesis by (simp add: distinct_map)
qed

lemma erase_at_find_if: "erase_at (find_if (\<lambda>x. x = k) xs) xs = remove1 k xs"
proof (induction xs)
  case Nil
  then show ?case by (simp add: erase_at_def)
next
  case (Cons y ys)
  then show ?case by (auto simp: erase_at_def)
qed

lemma tuple_key_eq:
  "tuple_key w (f, t, e) = (src, dst, wt) \<longleftrightarrow>
   deref w f = src \<and> deref w t = dst \<and> get_weight (deref_edge w e) = wt"
  by (simp add: tuple_key_def get_weight_def)

lemma erase_edge_spec:
  assumes ok: "world_ok w" and call: "erase_edge this src dst wt w = (r, w')"
    and src: "is_node this src w" and dst: "is_node this dst w"
  shows "world_ok w'" and "frame this w w'"
    and "r = Inr ((src, dst, wt) \<in> set (edge_records this w))"
    and "nodes this w' = nodes this w"
    and "edge_records this w' = remove1 (src, dst, wt) (edge_records this w)"
    and "(src, dst, wt) \<notin> set (edge_records this w) \<Longrightarrow> w' = w"
proof -
  let ?es = "edges_m (graphs w this)"
  let ?P = "\<lambda>(from_p, to_p, edge).
              deref w from_p = src \<and> deref w to_p = dst \<and> get_weight (deref_edge w edge) = wt"
  let ?i = "find_if ?P ?es"
  have g: "graph_ok w (graphs w this)" by (rule world_ok_graph [OF ok])
  have P: "?P = (\<lambda>x. x = (src, dst, wt)) \<circ> tuple_key w"
    by (auto simp: fun_eq_iff tuple_key_eq)
  have i: "?i = find_if (\<lambda>x. x = (src, dst, wt)) (edge_records this w)"
    unfolding traverse_keys [OF g] find_if_map P ..
  have len: "length ?es = length (edge_records this w)" by (simp add: traverse_keys [OF g])
  have found: "?i = length ?es \<longleftrightarrow> (src, dst, wt) \<notin> set (edge_records this w)"
    unfolding i len find_if_end by auto
  have main: "world_ok w' \<and> frame this w w' \<and>
      r = Inr ((src, dst, wt) \<in> set (edge_records this w)) \<and>
      nodes this w' = nodes this w \<and>
      edge_records this w' = remove1 (src, dst, wt) (edge_records this w) \<and>
      ((src, dst, wt) \<notin> set (edge_records this w) \<longrightarrow> w' = w)"
  proof (cases "(src, dst, wt) \<in> set (edge_records this w)")
    case False
    then have "r = Inr False" "w' = w"
      using call src dst found by (simp_all add: erase_edge_def Let_def)
    then show ?thesis using ok False frame_refl [OF ok] by (simp add: remove1_idem)
  next
    case True
    then have r: "r = Inr True" and w': "w' = put_edges this (erase_at ?i ?es) w"
      using call src dst found by (simp_all add: erase_edge_def Let_def)
    have it: "erase_edge_it this ?i w = (?i, w')" by (simp add: erase_edge_it_def w')
    note a = erase_edge_it_spec [OF ok it]
    have "edge_records this w' = remove1 (src, dst, wt) (edge_records this w)"
      unfolding a(5) i by (rule erase_at_find_if)
    then show ?thesis using a r True by simp
  qed
  show "world_ok w'" "frame this w w'"
    "r = Inr ((src, dst, wt) \<in> set (edge_records this w))"
    "nodes this w' = nodes this w"
    "edge_records this w' = remove1 (src, dst, wt) (edge_records this w)"
    "(src, dst, wt) \<notin> set (edge_records this w) \<Longrightarrow> w' = w"
    using main by simp_all
qed

lemma nodes_erase_filter:
  assumes g: "graph_ok w (graphs w this)"
  shows "nodes_erase this p w =
         put_nodes this (filter (\<lambda>q. deref w q \<noteq> deref w p) (nodes_m (graphs w this))) w"
proof -
  have s: "sorted_wrt (<) (map (deref w) (nodes_m (graphs w this)))"
    using g by (simp add: graph_ok_def nodes_ok_def)
  show ?thesis
    unfolding nodes_erase_def compare_shared_ptr_def set_erase_key [OF s] ..
qed

lemma nodes_ok_filter: "nodes_ok w ns \<Longrightarrow> nodes_ok w (filter P ns)"
  by (auto simp: nodes_ok_def sorted_wrt_map sorted_wrt_filter)

lemma erase_node_spec:
  assumes ok: "world_ok w" and call: "erase_node this v w = (r, w')"
  shows "world_ok w'" and "frame this w w'"
    and "r \<longleftrightarrow> v \<in> set (nodes this w)"
    and "nodes this w' = filter (\<lambda>x. x \<noteq> v) (nodes this w)"
    and "edge_records this w' = filter (\<lambda>(a, b, c). a \<noteq> v \<and> b \<noteq> v) (edge_records this w)"
    and "v \<notin> set (nodes this w) \<Longrightarrow> w' = w"
proof -
  let ?ns = "nodes_m (graphs w this)"
  let ?es = "edges_m (graphs w this)"
  have g: "graph_ok w (graphs w this)" by (rule world_ok_graph [OF ok])
  have nk: "nodes_ok w ?ns" and ek: "edges_ok w (set ?ns) ?es"
    using g by (simp_all add: graph_ok_def)
  have main: "world_ok w' \<and> frame this w w' \<and> (r \<longleftrightarrow> v \<in> set (nodes this w)) \<and>
      nodes this w' = filter (\<lambda>x. x \<noteq> v) (nodes this w) \<and>
      edge_records this w' = filter (\<lambda>(a, b, c). a \<noteq> v \<and> b \<noteq> v) (edge_records this w) \<and>
      (v \<notin> set (nodes this w) \<longrightarrow> w' = w)"
  proof (cases "find_node_ptr this v w")
    case None
    then have nv: "v \<notin> set (nodes this w)" using find_node_ptr_None [OF g] by simp
    have rw: "r = False" "w' = w" using call None by (simp_all add: erase_node_def)
    have n: "filter (\<lambda>x. x \<noteq> v) (nodes this w) = nodes this w"
      using nv by (auto simp: filter_id_conv)
    have ends: "\<forall>k\<in>set (edge_records this w). fst k \<in> set (nodes this w) \<and> fst (snd k) \<in> set (nodes this w)"
      unfolding traverse_keys [OF g] using ek by (auto simp: edges_ok_def tuple_key_def nodes_def)
    have e: "filter (\<lambda>(a, b, c). a \<noteq> v \<and> b \<noteq> v) (edge_records this w) = edge_records this w"
      unfolding filter_id_conv using ends nv by fastforce
    show ?thesis using rw ok nv n e frame_refl [OF ok] by simp
  next
    case (Some p)
    have p: "p \<in> set ?ns" "deref w p = v" using find_node_ptr_Some [OF g Some] by simp_all
    then have iv: "v \<in> set (nodes this w)" by (auto simp: nodes_def)
    let ?ns' = "filter (\<lambda>q. deref w q \<noteq> v) ?ns"
    let ?Q = "\<lambda>(from_p, to_p, edge). \<not> (deref w from_p = v \<or> deref w to_p = v)"
    let ?es' = "filter ?Q ?es"
    have r: "r = True" and w': "w' = put_edges this ?es' (put_nodes this ?ns' w)"
      using call Some p nodes_erase_filter [OF g, of p]
      by (simp_all add: erase_node_def Let_def)
    have nk': "nodes_ok w ?ns'" by (rule nodes_ok_filter [OF nk])
    have e0: "edges_ok w (set ?ns) ?es'" by (rule edges_ok_subset [OF ek refl])
    have ek': "edges_ok w (set ?ns') ?es'"
      unfolding edges_ok_def using e0 by (auto simp: edges_ok_def)
    have g': "graph_ok w' (graphs w' this)"
      using nk' ek' by (simp add: w' graph_ok_def)
    have fr: "frame this w w'"
      by (rule frame_members [OF ok]) (auto simp: w' edge_ptrs_def)
    have wok: "world_ok w'" by (rule frame_world_ok [OF ok fr g'])
    have n: "nodes this w' = filter (\<lambda>x. x \<noteq> v) (nodes this w)"
      by (simp add: nodes_def w' filter_map comp_def)
    have Q: "?Q = (\<lambda>(a, b, c). a \<noteq> v \<and> b \<noteq> v) \<circ> tuple_key w"
      by (auto simp: fun_eq_iff tuple_key_def)
    have "edge_records this w' = map (tuple_key w) ?es'"
      using traverse_keys [OF g'] by (simp add: w')
    also have "\<dots> = filter (\<lambda>(a, b, c). a \<noteq> v \<and> b \<noteq> v) (map (tuple_key w) ?es)"
      unfolding Q filter_map ..
    finally have e: "edge_records this w' =
        filter (\<lambda>(a, b, c). a \<noteq> v \<and> b \<noteq> v) (edge_records this w)"
      by (simp add: traverse_keys [OF g])
    show ?thesis using wok fr r iv n e by simp
  qed
  show "world_ok w'" "frame this w w'" "r \<longleftrightarrow> v \<in> set (nodes this w)"
    "nodes this w' = filter (\<lambda>x. x \<noteq> v) (nodes this w)"
    "edge_records this w' = filter (\<lambda>(a, b, c). a \<noteq> v \<and> b \<noteq> v) (edge_records this w)"
    "v \<notin> set (nodes this w) \<Longrightarrow> w' = w"
    using main by simp_all
qed

subsection \<open>\<open>insert_edge\<close>\<close>

lemma insert_edge_error:
  "\<not> is_node this src w \<or> \<not> is_node this dst w \<Longrightarrow>
   insert_edge this src dst wt w =
     (Inl (runtime_error ''Cannot call gdwg::graph<N, E>::insert_edge when either src or dst node does not exist''), w)"
  by (auto simp: insert_edge_def is_node_find split: option.splits)

lemma insert_edge_spec:
  assumes ok: "world_ok w" and call: "insert_edge this src dst wt w = (r, w')"
    and src: "is_node this src w" and dst: "is_node this dst w"
  shows "world_ok w'" and "frame this w w'"
    and "r = Inr ((src, dst, wt) \<notin> set (edge_records this w))"
    and "nodes this w' = nodes this w"
    and "set (edge_records this w') = insert (src, dst, wt) (set (edge_records this w))"
    and "nodes_m (graphs w' this) = nodes_m (graphs w this)"
proof -
  let ?ns = "nodes_m (graphs w this)"
  let ?es = "edges_m (graphs w this)"
  have g: "graph_ok w (graphs w this)" by (rule world_ok_graph [OF ok])
  have nk: "nodes_ok w ?ns" and ek: "edges_ok w (set ?ns) ?es"
    using g by (simp_all add: graph_ok_def)
  obtain sp where sp: "find_node_ptr this src w = Some sp" using src by (auto simp: is_node_find)
  obtain dp where dp: "find_node_ptr this dst w = Some dp" using dst by (auto simp: is_node_find)
  have spn: "sp \<in> set ?ns" "deref w sp = src" using find_node_ptr_Some [OF g sp] by simp_all
  have dpn: "dp \<in> set ?ns" "deref w dp = dst" using find_node_ptr_Some [OF g dp] by simp_all
  define E :: "('a, 'b) edge" where
    "E = (case wt of None \<Rightarrow> unweighted_edge src dst | Some v \<Rightarrow> weighted_edge src dst v)"
  have E: "weight_m E = wt" "get_nodes E = (src, dst)"
    by (simp_all add: E_def get_nodes_def split: option.splits)
  obtain b w1 where ms: "make_shared_edge E w = (b, w1)" by (cases "make_shared_edge E w") auto
  have ms': "(case wt of None \<Rightarrow> make_shared_edge (unweighted_edge src dst) w
              | Some v \<Rightarrow> make_shared_edge (weighted_edge src dst v) w) = (b, w1)"
    using ms by (simp add: E_def split: option.splits)
  note f = make_shared_edge_fields [OF ms]
  let ?t = "(sp, dp, b)"
  have lt: "\<forall>q\<in>dom (edge_mem w). q < brk w" using ok by (simp add: world_ok_def)
  have old: "\<forall>q\<in>dom (edge_mem w). edge_mem w1 q = edge_mem w q" using f lt by auto
  have edom: "\<forall>t\<in>set ?es. snd (snd t) \<in> dom (edge_mem w)" using ek by (simp add: edges_ok_def)
  have em: "\<forall>t\<in>set ?es. edge_mem w1 (snd (snd t)) = edge_mem w (snd (snd t))"
    using old edom by blast
  have nm: "\<forall>p\<in>set ?ns. node_mem w1 p = node_mem w p" using f by simp
  have nk1: "nodes_ok w1 ?ns" by (rule nodes_ok_agree [OF nk nm])
  have ek1: "edges_ok w1 (set ?ns) ?es" by (rule edges_ok_agree [OF ek nm em])
  have keys: "map (tuple_key w1) ?es = map (tuple_key w) ?es"
    by (rule map_tuple_key_agree [OF _ nm em]) (use ek in \<open>simp add: edges_ok_def\<close>)
  have srt: "sorted_wrt (<) (map (tuple_key w1) ?es)" using ek1 by (simp add: edges_ok_def)
  have kt: "tuple_key w1 ?t = (src, dst, wt)"
    using f spn dpn E by (simp add: tuple_key_def deref_def deref_edge_def)
  have inj: "inj_on (deref w1) (set ?ns)" by (rule nodes_ok_inj [OF nk1])
  have ends: "\<forall>t\<in>set ?es. fst t \<in> set ?ns \<and> fst (snd t) \<in> set ?ns"
    using ek by (simp add: edges_ok_def)
  have cmp: "compare_edges_set w1 y ?t = (tuple_key w1 y < tuple_key w1 ?t) \<and>
             compare_edges_set w1 ?t y = (tuple_key w1 ?t < tuple_key w1 y)" if "y \<in> set ?es" for y
    using compare_edges_set_key [OF inj, of y ?t] compare_edges_set_key [OF inj, of ?t y]
      ends that spn dpn by simp
  have recs: "edge_records this w = map (tuple_key w1) ?es"
    using traverse_keys [OF g] keys by simp
  have gr1: "graphs w1 = graphs w" using f by simp
  have sf: "set_find (\<lambda>u. compare_edges_set w1 u ?t) (\<lambda>u. compare_edges_set w1 ?t u) ?es =
        set_find (\<lambda>u. tuple_key w1 u < tuple_key w1 ?t) (\<lambda>u. tuple_key w1 ?t < tuple_key w1 u) ?es"
    by (rule set_find_cong) (use cmp in simp)
  have "edges_contains this ?t w1 \<longleftrightarrow>
        set_find (\<lambda>u. tuple_key w1 u < tuple_key w1 ?t) (\<lambda>u. tuple_key w1 ?t < tuple_key w1 u) ?es \<noteq> None"
    unfolding edges_contains_def set_contains_def gr1 sf ..
  also have "\<dots> \<longleftrightarrow> List.find (\<lambda>y. tuple_key w1 y = tuple_key w1 ?t) ?es \<noteq> None"
    by (simp only: set_find_key [OF srt])
  also have "\<dots> \<longleftrightarrow> (src, dst, wt) \<in> set (edge_records this w)"
    unfolding recs kt by (force simp: find_None_iff image_iff)
  finally have contains: "edges_contains this ?t w1 \<longleftrightarrow> (src, dst, wt) \<in> set (edge_records this w)" .
  have fr1: "frame this w w1"
    unfolding frame_def using f old ok by (auto simp: world_ok_def dom_def less_Suc_eq)
  have g1: "graph_ok w1 (graphs w1 this)" using nk1 ek1 f by (simp add: graph_ok_def)
  have main: "world_ok w' \<and> frame this w w' \<and>
      r = Inr ((src, dst, wt) \<notin> set (edge_records this w)) \<and>
      nodes this w' = nodes this w \<and>
      set (edge_records this w') = insert (src, dst, wt) (set (edge_records this w)) \<and>
      nodes_m (graphs w' this) = nodes_m (graphs w this)"
  proof (cases "(src, dst, wt) \<in> set (edge_records this w)")
    case True
    then have rw: "r = Inr False" "w' = w1"
      using call sp dp ms' contains by (simp_all add: insert_edge_def)
    have "edge_records this w1 = edge_records this w"
      using traverse_keys [OF g1] recs f by simp
    moreover have "nodes this w1 = nodes this w"
      using f map_deref_agree [OF nm] by (simp add: nodes_def)
    moreover have "world_ok w1" by (rule frame_world_ok [OF ok fr1 g1])
    ultimately show ?thesis using rw fr1 True f by auto
  next
    case False
    let ?es' = "set_insert (\<lambda>a b. tuple_key w1 a < tuple_key w1 b) ?t ?es"
    have ins: "set_insert (compare_edges_set w1) ?t ?es = ?es'"
      by (rule set_insert_cong) (use cmp in simp)
    have r: "r = Inr True" and w': "w' = put_edges this ?es' w1"
      using call sp dp ms' contains False ins f by (simp_all add: insert_edge_def edges_insert_def)
    have notin: "tuple_key w1 ?t \<notin> tuple_key w1 ` set ?es"
      using False unfolding recs kt by simp
    have set': "set ?es' = insert ?t (set ?es)"
      using set_insert_set [OF srt, of ?t] notin by simp
    have srt': "sorted_wrt (<) (map (tuple_key w1) ?es')" by (rule set_insert_sorted [OF srt])
    have bfresh: "b \<notin> (snd \<circ> snd) ` set ?es" using edom lt f by fastforce
    have inj': "inj_on (snd \<circ> snd) (set ?es')"
      unfolding set' using ek1 bfresh by (auto simp: edges_ok_def)
    have cell: "snd (snd ?t) \<in> dom (edge_mem w1) \<and>
        get_nodes (deref_edge w1 (snd (snd ?t))) = (deref w1 (fst ?t), deref w1 (fst (snd ?t)))"
      using f E spn dpn by (simp add: deref_edge_def deref_def)
    have ek': "edges_ok w1 (set ?ns) ?es'"
      unfolding edges_ok_def set' using ek1 cell spn dpn srt' inj' set'
      by (simp add: edges_ok_def)
    have g': "graph_ok w' (graphs w' this)"
      using nk1 ek' f by (simp add: w' graph_ok_def)
    have sub: "edge_ptrs (graphs w' this) \<subseteq> edge_ptrs (graphs w this) \<union> {p. brk w \<le> p}"
      using set' f by (auto simp: w' edge_ptrs_def)
    have rest: "(\<forall>j. j \<noteq> this \<longrightarrow> graphs w' j = graphs w j) \<and>
       (\<forall>p\<in>dom (node_mem w). node_mem w' p = node_mem w p) \<and>
       (\<forall>p\<in>dom (edge_mem w). p \<notin> edge_ptrs (graphs w this) \<longrightarrow> edge_mem w' p = edge_mem w p) \<and>
       brk w \<le> brk w' \<and> (\<forall>p\<in>dom (node_mem w'). p < brk w') \<and> (\<forall>p\<in>dom (edge_mem w'). p < brk w')"
      using f old ok by (auto simp: w' world_ok_def dom_def less_Suc_eq)
    have fr: "frame this w w'"
      unfolding frame_def using sub rest by blast
    have wok: "world_ok w'" by (rule frame_world_ok [OF ok fr g'])
    have "edge_records this w' = map (tuple_key w1) ?es'"
      using traverse_keys [OF g'] by (simp add: w')
    then have "set (edge_records this w') = tuple_key w1 ` set ?es'" by simp
    also have "\<dots> = insert (src, dst, wt) (set (edge_records this w))"
      unfolding set' recs using kt by simp
    finally have rs: "set (edge_records this w') = insert (src, dst, wt) (set (edge_records this w))" .
    have n: "nodes this w' = nodes this w"
      using f map_deref_agree [OF nm] by (simp add: nodes_def w')
    show ?thesis using wok fr r False rs n f by (simp add: w')
  qed
  show "world_ok w'" "frame this w w'"
    "r = Inr ((src, dst, wt) \<notin> set (edge_records this w))"
    "nodes this w' = nodes this w"
    "set (edge_records this w') = insert (src, dst, wt) (set (edge_records this w))"
    "nodes_m (graphs w' this) = nodes_m (graphs w this)"
    using main by simp_all
qed

subsection \<open>The empty store\<close>

lemma init_no_node: "\<not> is_node this v init_world"
  by (simp add: is_node_def init_world_def set_contains_def)

lemma init_find_none: "find_node_ptr this v init_world = None"
  by (simp add: find_node_ptr_def init_world_def)

subsection \<open>Iteration\<close>

lemma records_ends:
  assumes ok: "world_ok w" and k: "(a, b, c) \<in> set (edge_records this w)"
  shows "a \<in> set (nodes this w)" and "b \<in> set (nodes this w)"
proof -
  have g: "graph_ok w (graphs w this)" by (rule world_ok_graph [OF ok])
  obtain t where t: "t \<in> set (edges_m (graphs w this))" "tuple_key w t = (a, b, c)"
    using k unfolding traverse_keys [OF g] by auto
  have "fst t \<in> set (nodes_m (graphs w this)) \<and> fst (snd t) \<in> set (nodes_m (graphs w this))"
    using g t by (simp add: graph_ok_def edges_ok_def)
  then show "a \<in> set (nodes this w)" "b \<in> set (nodes this w)"
    using t by (auto simp: tuple_key_def nodes_def)
qed

lemma find_edge_records:
  "find_edge this src dst wt w = find_if (\<lambda>k. k = (src, dst, wt)) (edge_records this w)"
  by (simp add: find_edge_def edge_records_def find_if_map comp_def triple_def)

lemma end_it_records: "end_it this w = length (edge_records this w)"
  by (simp add: end_it_def edge_records_def traverse_def)

lemma iter_deref_records:
  "i < end_it this w \<Longrightarrow> triple (iter_deref this i w) = edge_records this w ! i"
  by (simp add: end_it_def iter_deref_def edge_records_def traverse_def)

subsection \<open>The sample stores\<close>

lemma two_nodes_ok: "world_ok two_nodes"
  unfolding two_nodes_def
  by (intro insert_node_spec(1) [OF _ surjective_pairing] init_world_ok)

lemma two_nodes_nodes: "nodes 0 two_nodes = [1, 2]"
  by (simp add: two_nodes_def insert_node_def init_world_def set_contains_def make_shared_def
      nodes_insert_def put_nodes_def compare_shared_ptr_def compare_ptr_value_def
      compare_value_ptr_def deref_def nodes_def)

lemma one_edge_ok: "world_ok one_edge"
  unfolding one_edge_def
  by (rule insert_edge_spec(1) [OF two_nodes_ok surjective_pairing])
     (simp_all add: is_node_iff [OF world_ok_graph [OF two_nodes_ok]] two_nodes_nodes)

lemma one_edge_nodes: "nodes 0 one_edge = [1, 2]"
  unfolding one_edge_def
  using insert_edge_spec(4) [OF two_nodes_ok surjective_pairing, of 0 1 2 "Some 5"]
  by (simp add: is_node_iff [OF world_ok_graph [OF two_nodes_ok]] two_nodes_nodes)

lemma two_nodes_records: "edge_records 0 two_nodes = []"
  by (simp add: two_nodes_def insert_node_def init_world_def set_contains_def make_shared_def
      nodes_insert_def put_nodes_def compare_shared_ptr_def compare_ptr_value_def
      compare_value_ptr_def deref_def edge_records_def traverse_def)

lemma one_edge_records: "edge_records 0 one_edge = [(1, 2, Some 5)]"
proof -
  have "set (edge_records 0 one_edge) = {(1, 2, Some 5)}"
    unfolding one_edge_def
    using insert_edge_spec(5) [OF two_nodes_ok surjective_pairing, of 0 1 2 "Some 5"]
    by (simp add: is_node_iff [OF world_ok_graph [OF two_nodes_ok]] two_nodes_nodes two_nodes_records)
  moreover have "sorted_wrt (<) (edge_records 0 one_edge)" by (rule records_sorted [OF one_edge_ok])
  moreover have "sorted_wrt (<) [(1::int, 2::int, Some (5::int))]" by simp
  ultimately show ?thesis using strict_sorted_equal [of "edge_records 0 one_edge" "[(1, 2, Some 5)]"] by simp
qed

lemma records_unique:
  "world_ok w \<Longrightarrow> set (edge_records this w) = set xs \<Longrightarrow> sorted_wrt (<) xs \<Longrightarrow>
   edge_records this w = xs"
  using records_sorted [of w this] strict_sorted_equal [of xs "edge_records this w"] by simp

lemma nodes_unique:
  "world_ok w \<Longrightarrow> set (nodes this w) = set xs \<Longrightarrow> sorted_wrt (<) xs \<Longrightarrow> nodes this w = xs"
  using nodes_sorted [of w this] strict_sorted_equal [of xs "nodes this w"] by simp

lemma is_node_world: "world_ok w \<Longrightarrow> is_node this v w \<longleftrightarrow> v \<in> set (nodes this w)"
  by (rule is_node_iff [OF world_ok_graph])

lemma one_edge_is_node: "is_node 0 1 one_edge" "is_node 0 2 one_edge"
  by (simp_all add: is_node_world [OF one_edge_ok] one_edge_nodes)

lemma loop_edge_ok: "world_ok loop_edge"
  unfolding loop_edge_def
  by (rule insert_edge_spec(1) [OF one_edge_ok surjective_pairing one_edge_is_node(1) one_edge_is_node(1)])

lemma loop_edge_nodes: "nodes 0 loop_edge = [1, 2]"
  unfolding loop_edge_def
  using insert_edge_spec(4) [OF one_edge_ok surjective_pairing one_edge_is_node(1) one_edge_is_node(1)]
  by (simp add: one_edge_nodes)

lemma loop_edge_records: "edge_records 0 loop_edge = [(1, 1, None), (1, 2, Some 5)]"
proof (rule records_unique [OF loop_edge_ok])
  show "set (edge_records 0 loop_edge) = set [(1, 1, None), (1, 2, Some 5)]"
    unfolding loop_edge_def
    using insert_edge_spec(5) [OF one_edge_ok surjective_pairing one_edge_is_node(1) one_edge_is_node(1)]
    by (simp add: one_edge_records)
  show "sorted_wrt (<) [(1::int, 1::int, None), (1, 2, Some (5::int))]" by simp
qed

lemma loop_edge_is_node: "is_node 0 1 loop_edge" "is_node 0 2 loop_edge"
  by (simp_all add: is_node_world [OF loop_edge_ok] loop_edge_nodes)

subsection \<open>\<open>update_node\<close>\<close>

lemma weight_set_nodes [simp]: "weight_m (set_nodes a b e) = weight_m e"
  by (cases e) simp_all

lemma get_nodes_set_nodes [simp]: "get_nodes (set_nodes a b e) = (a, b)"
  by (cases e) (simp_all add: get_nodes_def)

lemma edge_comp_weight:
  "weight_m e = weight_m f \<Longrightarrow> weight_m e' = weight_m f' \<Longrightarrow> edge_comp e e' = edge_comp f f'"
  by (simp add: edge_comp_def is_weighted_def)

lemma store_set_nodes_fields [simp]:
  "node_mem (store_set_nodes p a b w) = node_mem w"
  "brk (store_set_nodes p a b w) = brk w"
  "graphs (store_set_nodes p a b w) = graphs w"
  "edge_mem (store_set_nodes p a b w) = (edge_mem w)(p \<mapsto> set_nodes a b (deref_edge w p))"
  by (simp_all add: store_set_nodes_def)

lemma store_set_nodes_deref [simp]: "deref (store_set_nodes p a b w) = deref w"
  by (simp add: fun_eq_iff deref_def)

lemma store_set_nodes_weight [simp]:
  "weight_m (deref_edge (store_set_nodes p a b w) q) = weight_m (deref_edge w q)"
  by (simp add: deref_edge_def)

lemma store_set_nodes_compare [simp]:
  "compare_edges_set (store_set_nodes p a b w) = compare_edges_set w"
proof (intro ext)
  fix t u :: edge_tuple
  obtain l0 l1 l2 where t: "t = (l0, l1, l2)" by (cases t) auto
  obtain r0 r1 r2 where u: "u = (r0, r1, r2)" by (cases u) auto
  have "edge_comp (deref_edge (store_set_nodes p a b w) l2) (deref_edge (store_set_nodes p a b w) r2) =
        edge_comp (deref_edge w l2) (deref_edge w r2)"
    by (rule edge_comp_weight) simp_all
  then show "compare_edges_set (store_set_nodes p a b w) t u = compare_edges_set w t u"
    by (simp add: t u compare_shared_ptr_def)
qed

lemma store_set_nodes_key [simp]: "tuple_key (store_set_nodes p a b w) = tuple_key w"
  by (simp add: fun_eq_iff tuple_key_def)

text \<open>The loop: what stays, what is collected, and the cells it writes.\<close>

lemma update_node_loop_spec:
  assumes "update_node_loop sp dp es upd w = (kept, upd', w')"
    and "distinct (map (snd \<circ> snd) es)"
  shows "kept = filter (\<lambda>t. \<not> mentions sp t) es \<and>
      upd' = foldl (\<lambda>acc t. set_insert (compare_edges_set w) t acc) upd
                  (map (redirect sp dp) (filter (mentions sp) es)) \<and>
      (node_mem w' = node_mem w \<and> brk w' = brk w \<and> graphs w' = graphs w) \<and>
      (compare_edges_set w' = compare_edges_set w \<and> tuple_key w' = tuple_key w \<and> deref w' = deref w) \<and>
      (\<forall>q. q \<notin> (snd \<circ> snd) ` set (filter (mentions sp) es) \<longrightarrow> edge_mem w' q = edge_mem w q) \<and>
      (\<forall>t\<in>set (filter (mentions sp) es).
           edge_mem w' (snd (snd t)) =
             Some (set_nodes (deref w (fst (redirect sp dp t))) (deref w (fst (snd (redirect sp dp t))))
                    (deref_edge w (snd (snd t)))))"
  using assms
proof (induction es arbitrary: upd w kept upd' w')
  case Nil
  then show ?case by simp
next
  case (Cons t es)
  obtain s d e where t: "t = (s, d, e)" by (cases t) auto
  have dist: "distinct (map (snd \<circ> snd) es)" and efresh: "e \<notin> (snd \<circ> snd) ` set es"
    using Cons.prems(2) t by (auto simp: comp_def)
  show ?case
  proof (cases "mentions sp t")
    case True
    let ?new = "redirect sp dp t"
    let ?w1 = "store_set_nodes e (deref w (fst ?new)) (deref w (fst (snd ?new))) w"
    let ?u1 = "set_insert (compare_edges_set w) ?new upd"
    have call: "update_node_loop sp dp es ?u1 ?w1 = (kept, upd', w')"
      using Cons.prems(1) True by (auto simp: t mentions_def redirect_def Let_def split: if_splits)
    note ih = Cons.IH [OF call dist]
    have ih5: "\<forall>q. q \<notin> (snd \<circ> snd) ` set (filter (mentions sp) es) \<longrightarrow> edge_mem w' q = edge_mem ?w1 q"
      using ih by blast
    have ih6: "\<forall>t\<in>set (filter (mentions sp) es).
           edge_mem w' (snd (snd t)) =
             Some (set_nodes (deref ?w1 (fst (redirect sp dp t))) (deref ?w1 (fst (snd (redirect sp dp t))))
                    (deref_edge ?w1 (snd (snd t))))"
      using ih by blast
    have cell: "edge_mem w' e = Some (set_nodes (deref w (fst ?new)) (deref w (fst (snd ?new))) (deref_edge w e))"
    proof -
      have "e \<notin> (snd \<circ> snd) ` set (filter (mentions sp) es)" using efresh by auto
      then have "edge_mem w' e = edge_mem ?w1 e" using ih5 by blast
      then show ?thesis by simp
    qed
    have others: "\<forall>t'\<in>set (filter (mentions sp) es).
           edge_mem w' (snd (snd t')) =
             Some (set_nodes (deref w (fst (redirect sp dp t'))) (deref w (fst (snd (redirect sp dp t'))))
                    (deref_edge w (snd (snd t'))))"
    proof
      fix t' assume t': "t' \<in> set (filter (mentions sp) es)"
      then have ne: "snd (snd t') \<noteq> e" using efresh by auto
      have de: "deref_edge ?w1 (snd (snd t')) = deref_edge w (snd (snd t'))"
        using ne by (simp add: deref_edge_def)
      have "edge_mem w' (snd (snd t')) =
             Some (set_nodes (deref ?w1 (fst (redirect sp dp t'))) (deref ?w1 (fst (snd (redirect sp dp t'))))
                    (deref_edge ?w1 (snd (snd t'))))"
        using ih6 t' by blast
      then show "edge_mem w' (snd (snd t')) =
             Some (set_nodes (deref w (fst (redirect sp dp t'))) (deref w (fst (snd (redirect sp dp t'))))
                    (deref_edge w (snd (snd t'))))"
        unfolding de by simp
    qed
    have outside: "\<forall>q. q \<notin> (snd \<circ> snd) ` set (filter (mentions sp) (t # es)) \<longrightarrow> edge_mem w' q = edge_mem w q"
    proof (intro allI impI)
      fix q assume q: "q \<notin> (snd \<circ> snd) ` set (filter (mentions sp) (t # es))"
      then have "q \<noteq> e" and "q \<notin> (snd \<circ> snd) ` set (filter (mentions sp) es)"
        using True t by auto
      then show "edge_mem w' q = edge_mem w q" using ih5 by simp
    qed
    have k: "kept = filter (\<lambda>t. \<not> mentions sp t) (t # es)" using ih True by simp
    have u: "upd' = foldl (\<lambda>acc t. set_insert (compare_edges_set w) t acc) upd
                  (map (redirect sp dp) (filter (mentions sp) (t # es)))"
      using ih True by simp
    have m: "node_mem w' = node_mem w \<and> brk w' = brk w \<and> graphs w' = graphs w" using ih by simp
    have c: "compare_edges_set w' = compare_edges_set w \<and> tuple_key w' = tuple_key w \<and> deref w' = deref w"
      using ih by simp
    have six: "\<forall>t'\<in>set (filter (mentions sp) (t # es)).
           edge_mem w' (snd (snd t')) =
             Some (set_nodes (deref w (fst (redirect sp dp t'))) (deref w (fst (snd (redirect sp dp t'))))
                    (deref_edge w (snd (snd t'))))"
      using True cell others by (simp add: t)
    show ?thesis using k u m c outside six by blast
  next
    case False
    obtain k1 u1 w1 where call: "update_node_loop sp dp es upd w = (k1, u1, w1)"
      by (cases "update_node_loop sp dp es upd w") auto
    have res: "kept = t # k1" "upd' = u1" "w' = w1"
      using Cons.prems(1) False call by (simp_all add: t mentions_def)
    note ih = Cons.IH [OF call dist]
    show ?thesis using False ih res by simp
  qed
qed

lemma foldl_set_insert:
  assumes "\<And>a b. a \<in> set xs \<union> set ys \<Longrightarrow> b \<in> set xs \<union> set ys \<Longrightarrow> lt a b = (key a < key b)"
    and "sorted_wrt (<) (map key ys)"
  shows "sorted_wrt (<) (map (key::'a \<Rightarrow> 'k::linorder) (foldl (\<lambda>acc t. set_insert lt t acc) ys xs)) \<and>
         key ` set (foldl (\<lambda>acc t. set_insert lt t acc) ys xs) = key ` (set xs \<union> set ys) \<and>
         set (foldl (\<lambda>acc t. set_insert lt t acc) ys xs) \<subseteq> set xs \<union> set ys"
  using assms
proof (induction xs arbitrary: ys)
  case Nil
  then show ?case by simp
next
  case (Cons x xs)
  let ?ys' = "set_insert lt x ys"
  have eq: "?ys' = set_insert (\<lambda>a b. key a < key b) x ys"
    by (rule set_insert_cong) (use Cons.prems(1) in simp)
  have srt': "sorted_wrt (<) (map key ?ys')"
    unfolding eq by (rule set_insert_sorted [OF Cons.prems(2)])
  have sub: "set ?ys' \<subseteq> insert x (set ys)" by (rule set_insert_subset)
  have keys: "key ` set ?ys' = insert (key x) (key ` set ys)"
    unfolding eq using set_insert_set [OF Cons.prems(2), of x] by auto
  have agree: "\<And>a b. a \<in> set xs \<union> set ?ys' \<Longrightarrow> b \<in> set xs \<union> set ?ys' \<Longrightarrow> lt a b = (key a < key b)"
    using Cons.prems(1) sub by (simp add: subset_iff) blast
  note ih = Cons.IH [OF agree srt']
  have a: "sorted_wrt (<) (map key (foldl (\<lambda>acc t. set_insert lt t acc) ys (x # xs)))"
    using ih by simp
  have "key ` set (foldl (\<lambda>acc t. set_insert lt t acc) ?ys' xs) = key ` set xs \<union> key ` set ?ys'"
    using ih by (simp add: image_Un)
  then have b: "key ` set (foldl (\<lambda>acc t. set_insert lt t acc) ys (x # xs)) = key ` (set (x # xs) \<union> set ys)"
    unfolding keys by auto
  have c: "set (foldl (\<lambda>acc t. set_insert lt t acc) ys (x # xs)) \<subseteq> set (x # xs) \<union> set ys"
    using ih sub by auto
  show ?case using a b c by blast
qed

lemma redirect_simps [simp]:
  "snd (snd (redirect sp dp t)) = snd (snd t)"
  "\<not> mentions sp t \<Longrightarrow> redirect sp dp t = t"
  by (simp_all add: redirect_def mentions_def)

lemma update_node_spec:
  assumes inj: "inj_on (deref u) (insert dp N)" and sp: "sp \<in> N"
    and ek: "edges_ok u N (edges_m (graphs u this))"
    and w': "w' = update_node this sp dp u"
  shows "node_mem w' = node_mem u \<and> brk w' = brk u \<and>
         (\<forall>j. j \<noteq> this \<longrightarrow> graphs w' j = graphs u j) \<and>
         nodes_m (graphs w' this) = nodes_m (graphs u this) \<and>
         (\<forall>q. q \<notin> edge_ptrs (graphs u this) \<longrightarrow> edge_mem w' q = edge_mem u q) \<and>
         dom (edge_mem w') = dom (edge_mem u) \<and>
         edge_ptrs (graphs w' this) \<subseteq> edge_ptrs (graphs u this) \<and>
         edges_ok w' (insert dp (N - {sp})) (edges_m (graphs w' this)) \<and>
         tuple_key w' ` set (edges_m (graphs w' this)) =
           rename_record (deref u sp) (deref u dp) ` tuple_key u ` set (edges_m (graphs u this))"
proof -
  let ?es = "edges_m (graphs u this)"
  let ?M = "filter (mentions sp) ?es"
  let ?R = "map (redirect sp dp) ?M"
  let ?K = "tuple_key u"
  let ?rd = "redirect sp dp"
  obtain kept upd wl where loop: "update_node_loop sp dp ?es [] u = (kept, upd, wl)"
    by (cases "update_node_loop sp dp ?es [] u") auto
  have inj3: "inj_on (snd \<circ> snd) (set ?es)" using ek by (simp add: edges_ok_def)
  have dist: "distinct (map (snd \<circ> snd) ?es)"
    using inj3 edges_ok_distinct [OF ek] by (simp add: distinct_map)
  note L = update_node_loop_spec [OF loop dist]
  have kept: "kept = filter (\<lambda>t. \<not> mentions sp t) ?es" using L by blast
  have upd: "upd = foldl (\<lambda>acc t. set_insert (compare_edges_set u) t acc) [] ?R" using L by blast
  have mem: "node_mem wl = node_mem u" "brk wl = brk u" "graphs wl = graphs u" using L by blast+
  have inv: "compare_edges_set wl = compare_edges_set u" "tuple_key wl = tuple_key u" "deref wl = deref u"
    using L by blast+
  have outside: "\<forall>q. q \<notin> (snd \<circ> snd) ` set ?M \<longrightarrow> edge_mem wl q = edge_mem u q" using L by blast
  have written: "\<forall>t\<in>set ?M. edge_mem wl (snd (snd t)) =
      Some (set_nodes (deref u (fst (?rd t))) (deref u (fst (snd (?rd t)))) (deref_edge u (snd (snd t))))"
    using L by blast
  let ?final = "foldl (\<lambda>es t. set_insert (compare_edges_set u) t es) kept upd"
  have w'eq: "w' = put_edges this ?final wl"
    unfolding w' update_node_def using loop inv by simp
  have ends: "\<forall>t\<in>set ?es. fst t \<in> N \<and> fst (snd t) \<in> N" using ek by (simp add: edges_ok_def)
  have rends: "\<forall>t\<in>set ?es. fst (?rd t) \<in> insert dp (N - {sp}) \<and> fst (snd (?rd t)) \<in> insert dp (N - {sp})"
    using ends by (auto simp: redirect_def)
  have Rk: "set ?R \<union> set kept = ?rd ` set ?es"
  proof (intro set_eqI iffI)
    fix x assume "x \<in> set ?R \<union> set kept"
    then consider "x \<in> set ?R" | "x \<in> set kept" by blast
    then show "x \<in> ?rd ` set ?es"
    proof cases
      case 1
      then show ?thesis by auto
    next
      case 2
      then have "x \<in> set ?es" "?rd x = x" unfolding kept by simp_all
      then show ?thesis by (metis image_eqI)
    qed
  next
    fix x assume "x \<in> ?rd ` set ?es"
    then obtain t where t: "t \<in> set ?es" "x = ?rd t" by blast
    show "x \<in> set ?R \<union> set kept"
    proof (cases "mentions sp t")
      case True
      then show ?thesis using t by simp
    next
      case False
      then show ?thesis using t unfolding kept by simp
    qed
  qed
  have RkR: "set ?R \<subseteq> ?rd ` set ?es" by auto
  have Rkk: "set kept \<subseteq> ?rd ` set ?es"
  proof
    fix x assume "x \<in> set kept"
    then have "x \<in> set ?es" "?rd x = x" unfolding kept by simp_all
    then show "x \<in> ?rd ` set ?es" by (metis image_eqI)
  qed
  have cmp: "compare_edges_set u a b = (?K a < ?K b)" if ha: "a \<in> ?rd ` set ?es" and hb: "b \<in> ?rd ` set ?es" for a b
  proof -
    obtain a0 where a0: "a0 \<in> set ?es" "a = ?rd a0" using ha by blast
    obtain b0 where b0: "b0 \<in> set ?es" "b = ?rd b0" using hb by blast
    have "fst a \<in> insert dp (N - {sp}) \<and> fst (snd a) \<in> insert dp (N - {sp})"
      using rends [rule_format, OF a0(1)] unfolding a0(2) .
    moreover have "fst b \<in> insert dp (N - {sp}) \<and> fst (snd b) \<in> insert dp (N - {sp})"
      using rends [rule_format, OF b0(1)] unfolding b0(2) .
    ultimately have "fst a \<in> insert dp N" "fst (snd a) \<in> insert dp N"
      "fst b \<in> insert dp N" "fst (snd b) \<in> insert dp N" by blast+
    then show ?thesis by (rule compare_edges_set_key [OF inj])
  qed
  have U: "sorted_wrt (<) (map ?K upd) \<and> ?K ` set upd = ?K ` (set ?R \<union> set []) \<and> set upd \<subseteq> set ?R \<union> set []"
    unfolding upd
  proof (rule foldl_set_insert [where lt = "compare_edges_set u" and key = ?K and xs = ?R and ys = "[]"])
    fix a b assume "a \<in> set ?R \<union> set []" "b \<in> set ?R \<union> set []"
    then have a: "a \<in> set ?R" and b: "b \<in> set ?R" by simp_all
    have "a \<in> ?rd ` set ?es" using RkR a by (rule subsetD)
    moreover have "b \<in> ?rd ` set ?es" using RkR b by (rule subsetD)
    ultimately show "compare_edges_set u a b = (?K a < ?K b)" by (rule cmp)
  qed simp
  have sk: "sorted_wrt (<) (map ?K kept)"
    unfolding kept using ek by (simp add: edges_ok_def sorted_wrt_map sorted_wrt_filter)
  have "set upd \<subseteq> set ?R" using U by simp
  then have "set upd \<subseteq> ?rd ` set ?es" using RkR by (rule subset_trans)
  then have updsub: "set upd \<union> set kept \<subseteq> ?rd ` set ?es" using Rkk by (rule Un_least)
  have F: "sorted_wrt (<) (map ?K ?final) \<and> ?K ` set ?final = ?K ` (set upd \<union> set kept) \<and>
           set ?final \<subseteq> set upd \<union> set kept"
  proof (rule foldl_set_insert [where lt = "compare_edges_set u" and key = ?K and xs = upd and ys = kept, OF _ sk])
    fix a b assume a: "a \<in> set upd \<union> set kept" and b: "b \<in> set upd \<union> set kept"
    have "a \<in> ?rd ` set ?es" using updsub a by (rule subsetD)
    moreover have "b \<in> ?rd ` set ?es" using updsub b by (rule subsetD)
    ultimately show "compare_edges_set u a b = (?K a < ?K b)" by (rule cmp)
  qed
  have fsub: "set ?final \<subseteq> ?rd ` set ?es" using F updsub by blast
  have fkeys: "?K ` set ?final = ?K ` ?rd ` set ?es"
  proof -
    have "?K ` set ?final = ?K ` set upd \<union> ?K ` set kept" using F by (simp add: image_Un)
    also have "\<dots> = ?K ` set ?R \<union> ?K ` set kept"
    proof -
      have "?K ` set upd = ?K ` set ?R" using U by simp
      then show ?thesis by (rule arg_cong)
    qed
    also have "\<dots> = ?K ` (set ?R \<union> set kept)" by (simp add: image_Un)
    finally show ?thesis unfolding Rk .
  qed
  have spiff: "p = sp \<longleftrightarrow> deref u p = deref u sp" if "p \<in> N" for p
    using inj sp that by (auto dest: inj_onD)
  have keyrd: "?K (?rd t) = rename_record (deref u sp) (deref u dp) (?K t)" if "t \<in> set ?es" for t
    using ends that spiff [of "fst t"] spiff [of "fst (snd t)"]
    by (auto simp: tuple_key_def redirect_def rename_record_def)
  have keys: "?K ` set ?final = rename_record (deref u sp) (deref u dp) ` ?K ` set ?es"
  proof -
    have "?K ` ?rd ` set ?es = (\<lambda>t. ?K (?rd t)) ` set ?es" by (simp add: image_image)
    also have "\<dots> = (\<lambda>t. rename_record (deref u sp) (deref u dp) (?K t)) ` set ?es"
      by (rule image_cong) (simp_all add: keyrd)
    also have "\<dots> = rename_record (deref u sp) (deref u dp) ` ?K ` set ?es"
      by (simp add: image_image)
    finally show ?thesis unfolding fkeys .
  qed
  have cells: "snd (snd (?rd t)) \<in> dom (edge_mem wl) \<and>
      get_nodes (deref_edge wl (snd (snd (?rd t)))) = (deref u (fst (?rd t)), deref u (fst (snd (?rd t))))"
    if t: "t \<in> set ?es" for t
  proof (cases "mentions sp t")
    case True
    then have "t \<in> set ?M" using t by simp
    then have "edge_mem wl (snd (snd t)) =
      Some (set_nodes (deref u (fst (?rd t))) (deref u (fst (snd (?rd t)))) (deref_edge u (snd (snd t))))"
      using written by blast
    then show ?thesis by (simp add: deref_edge_def dom_def)
  next
    case False
    have "snd (snd t) \<notin> (snd \<circ> snd) ` set ?M"
    proof
      assume "snd (snd t) \<in> (snd \<circ> snd) ` set ?M"
      then obtain m where m: "m \<in> set ?es" "mentions sp m" "snd (snd m) = snd (snd t)" by auto
      then have "m = t" using inj_onD [OF inj3, of m t] t by simp
      then show False using m False by simp
    qed
    then have e: "edge_mem wl (snd (snd t)) = edge_mem u (snd (snd t))" using outside by blast
    have "snd (snd t) \<in> dom (edge_mem u) \<and>
      get_nodes (deref_edge u (snd (snd t))) = (deref u (fst t), deref u (fst (snd t)))"
      using ek t by (simp add: edges_ok_def)
    then show ?thesis using e False by (simp add: deref_edge_def dom_def)
  qed
  have inj': "inj_on (snd \<circ> snd) (set ?final)"
  proof (rule inj_onI)
    fix a b assume a: "a \<in> set ?final" and b: "b \<in> set ?final"
      and eq: "(snd \<circ> snd) a = (snd \<circ> snd) b"
    obtain a0 where a0: "a0 \<in> set ?es" "a = ?rd a0" using a fsub by blast
    obtain b0 where b0: "b0 \<in> set ?es" "b = ?rd b0" using b fsub by blast
    have "(snd \<circ> snd) a0 = (snd \<circ> snd) b0" using eq a0 b0 by simp
    then have "a0 = b0" using inj_onD [OF inj3, of a0 b0] a0 b0 by simp
    then show "a = b" using a0 b0 by simp
  qed
  have ek': "edges_ok wl (insert dp (N - {sp})) ?final"
    unfolding edges_ok_def inv
  proof (intro conjI ballI)
    fix t assume "t \<in> set ?final"
    then obtain t0 where t0: "t0 \<in> set ?es" "t = ?rd t0" using fsub by blast
    show "fst t \<in> insert dp (N - {sp})" "fst (snd t) \<in> insert dp (N - {sp})"
      using rends t0 by auto
    show "snd (snd t) \<in> dom (edge_mem wl)"
      "get_nodes (deref_edge wl (snd (snd t))) = (deref u (fst t), deref u (fst (snd t)))"
      using cells [OF t0(1)] t0(2) by auto
  next
    show "sorted_wrt (<) (map ?K ?final)" using F by blast
    show "inj_on (snd \<circ> snd) (set ?final)" by (rule inj')
  qed
  have ptrs: "(snd \<circ> snd) ` set ?final \<subseteq> (snd \<circ> snd) ` set ?es"
  proof
    fix q assume "q \<in> (snd \<circ> snd) ` set ?final"
    then obtain t where "t \<in> set ?final" "q = snd (snd t)" by auto
    then obtain t0 where "t0 \<in> set ?es" "q = snd (snd t0)" using fsub by force
    then show "q \<in> (snd \<circ> snd) ` set ?es" by force
  qed
  have out: "\<forall>q. q \<notin> edge_ptrs (graphs u this) \<longrightarrow> edge_mem wl q = edge_mem u q"
    using outside by (auto simp: edge_ptrs_def)
  have dom: "dom (edge_mem wl) = dom (edge_mem u)"
  proof (rule set_eqI)
    fix q
    show "q \<in> dom (edge_mem wl) \<longleftrightarrow> q \<in> dom (edge_mem u)"
    proof (cases "q \<in> (snd \<circ> snd) ` set ?M")
      case True
      then obtain m where m: "m \<in> set ?M" "q = snd (snd m)" by auto
      have "edge_mem wl (snd (snd m)) =
        Some (set_nodes (deref u (fst (?rd m))) (deref u (fst (snd (?rd m)))) (deref_edge u (snd (snd m))))"
        using written m(1) by blast
      then have "edge_mem wl q \<noteq> None" using m(2) by simp
      moreover have "m \<in> set ?es" using m(1) by simp
      then have "q \<in> dom (edge_mem u)" using ek m(2) by (simp add: edges_ok_def)
      ultimately show ?thesis by auto
    next
      case False
      then show ?thesis using outside by (simp add: dom_def)
    qed
  qed
  show ?thesis
    using mem out dom ptrs ek' keys by (simp add: w'eq inv edge_ptrs_def)
qed

subsection \<open>\<open>replace_node\<close> and \<open>merge_replace_node\<close>\<close>

lemma replace_node_error:
  "\<not> is_node this old_data w \<Longrightarrow>
   replace_node this old_data new_data w =
     (Inl (runtime_error ''Cannot call gdwg::graph<N, E>::replace_node on a node that doesn't exist''), w)"
  by (simp add: replace_node_def is_node_find)

lemma replace_node_existing:
  "is_node this old_data w \<Longrightarrow> is_node this new_data w \<Longrightarrow>
   replace_node this old_data new_data w = (Inr False, w)"
  by (auto simp: replace_node_def is_node_find)

lemma merge_replace_node_error:
  "\<not> is_node this old_data w \<or> \<not> is_node this new_data w \<Longrightarrow>
   merge_replace_node this old_data new_data w =
     (Inl (runtime_error ''Cannot call gdwg::graph<N, E>::merge_replace_node on old or new data if they don't exist in the graph''), w)"
  by (auto simp: merge_replace_node_def is_node_find split: option.splits)

lemma merge_replace_node_same:
  "is_node this old_data w \<Longrightarrow> merge_replace_node this old_data old_data w = (Inr (), w)"
  by (auto simp: merge_replace_node_def is_node_find)

lemma filter_other_ptrs:
  assumes inj: "inj_on (deref w) (set ns)" and sp: "sp \<in> set ns"
  shows "set (filter (\<lambda>q. deref w q \<noteq> deref w sp) ns) = set ns - {sp}"
  using inj sp by (auto dest: inj_onD)

lemma image_other_ptrs:
  assumes inj: "inj_on (deref w) S" and sp: "sp \<in> S"
  shows "deref w ` (S - {sp}) = deref w ` S - {deref w sp}"
  using inj sp by (auto dest: inj_onD)

lemma records_image:
  "graph_ok w (graphs w this) \<Longrightarrow>
   set (edge_records this w) = tuple_key w ` set (edges_m (graphs w this))"
  by (simp add: traverse_keys)

lemma merge_replace_node_spec:
  assumes ok: "world_ok w" and call: "merge_replace_node this old new w = (r, w')"
    and old: "is_node this old w" and new: "is_node this new w" and ne: "old \<noteq> new"
  shows "world_ok w' \<and> frame this w w' \<and> r = Inr () \<and>
         nodes this w' = filter (\<lambda>x. x \<noteq> old) (nodes this w) \<and>
         set (edge_records this w') = rename_record old new ` set (edge_records this w)"
proof -
  let ?ns = "nodes_m (graphs w this)"
  let ?es = "edges_m (graphs w this)"
  have g: "graph_ok w (graphs w this)" by (rule world_ok_graph [OF ok])
  have nk: "nodes_ok w ?ns" and ek: "edges_ok w (set ?ns) ?es"
    using g by (simp_all add: graph_ok_def)
  obtain sp where sp: "find_node_ptr this old w = Some sp" using old by (auto simp: is_node_find)
  obtain np where np: "find_node_ptr this new w = Some np" using new by (auto simp: is_node_find)
  have spn: "sp \<in> set ?ns" "deref w sp = old" using find_node_ptr_Some [OF g sp] by simp_all
  have npn: "np \<in> set ?ns" "deref w np = new" using find_node_ptr_Some [OF g np] by simp_all
  have nesp: "np \<noteq> sp" using spn npn ne by auto
  let ?ns2 = "filter (\<lambda>q. deref w q \<noteq> deref w sp) ?ns"
  let ?u = "put_nodes this ?ns2 w"
  have r: "r = Inr ()" and w': "w' = update_node this sp np ?u"
    using call sp np ne nodes_erase_filter [OF g, of sp] by (simp_all add: merge_replace_node_def)
  have inj: "inj_on (deref w) (set ?ns)" by (rule nodes_ok_inj [OF nk])
  have ns2: "set ?ns2 = set ?ns - {sp}" by (rule filter_other_ptrs [OF inj spn(1)])
  have inju: "inj_on (deref ?u) (insert np (set ?ns))" using inj npn by (simp add: insert_absorb)
  have eku: "edges_ok ?u (set ?ns) (edges_m (graphs ?u this))" using ek by simp
  note U = update_node_spec [OF inju spn(1) eku w']
  have N': "insert np (set ?ns - {sp}) = set ?ns2" using ns2 npn nesp by auto
  have nm: "node_mem w' = node_mem w" and bk: "brk w' = brk w" using U by simp_all
  have gr: "nodes_m (graphs w' this) = ?ns2" using U by simp
  have ek': "edges_ok w' (set ?ns2) (edges_m (graphs w' this))" using U N' by simp
  have nk': "nodes_ok w' ?ns2"
    by (rule nodes_ok_agree [OF nodes_ok_filter [OF nk]]) (simp add: nm)
  have g': "graph_ok w' (graphs w' this)" using nk' ek' gr by (simp add: graph_ok_def)
  have others: "\<forall>j. j \<noteq> this \<longrightarrow> graphs w' j = graphs w j" using U by simp
  have out: "\<forall>q. q \<notin> edge_ptrs (graphs w this) \<longrightarrow> edge_mem w' q = edge_mem w q" using U by simp
  have dom: "dom (edge_mem w') = dom (edge_mem w)" using U by simp
  have ptrs: "edge_ptrs (graphs w' this) \<subseteq> edge_ptrs (graphs w this)" using U by simp
  have fr: "frame this w w'"
    unfolding frame_def using others nm bk out dom ptrs ok by (auto simp: world_ok_def)
  have wok: "world_ok w'" by (rule frame_world_ok [OF ok fr g'])
  have dr: "deref w' = deref w" using nm by (simp add: fun_eq_iff deref_def)
  have n: "nodes this w' = filter (\<lambda>x. x \<noteq> old) (nodes this w)"
    using spn by (simp add: nodes_def gr dr filter_map comp_def)
  have "set (edge_records this w') = tuple_key w' ` set (edges_m (graphs w' this))"
    by (rule records_image [OF g'])
  also have "\<dots> = rename_record (deref ?u sp) (deref ?u np) ` tuple_key ?u ` set (edges_m (graphs ?u this))"
    using U by blast
  also have "\<dots> = rename_record old new ` set (edge_records this w)"
    using spn npn by (simp add: records_image [OF g])
  finally have e: "set (edge_records this w') = rename_record old new ` set (edge_records this w)" .
  show ?thesis using wok fr r n e by simp
qed

lemma replace_node_spec:
  assumes ok: "world_ok w" and call: "replace_node this old new w = (r, w')"
    and old: "is_node this old w" and new: "\<not> is_node this new w"
  shows "world_ok w' \<and> frame this w w' \<and> r = Inr True \<and>
         set (nodes this w') = insert new (set (nodes this w) - {old}) \<and>
         set (edge_records this w') = rename_record old new ` set (edge_records this w)"
proof -
  let ?ns = "nodes_m (graphs w this)"
  let ?es = "edges_m (graphs w this)"
  have g: "graph_ok w (graphs w this)" by (rule world_ok_graph [OF ok])
  have nk: "nodes_ok w ?ns" and ek: "edges_ok w (set ?ns) ?es"
    using g by (simp_all add: graph_ok_def)
  obtain sp where sp: "find_node_ptr this old w = Some sp" using old by (auto simp: is_node_find)
  have spn: "sp \<in> set ?ns" "deref w sp = old" using find_node_ptr_Some [OF g sp] by simp_all
  have ne: "old \<noteq> new" using old new by auto
  have newfresh: "new \<notin> deref w ` set ?ns"
    using new is_node_iff [OF g, of new] by (simp add: nodes_def)
  obtain b w1 where ms: "make_shared new w = (b, w1)" by (cases "make_shared new w") auto
  note f = make_shared_fields [OF ms]
  have b: "b = brk w" and nm1: "node_mem w1 = (node_mem w)(brk w \<mapsto> new)"
    and em1: "edge_mem w1 = edge_mem w" and bk1: "brk w1 = Suc (brk w)" and gr1: "graphs w1 = graphs w"
    using f by simp_all
  have ltn: "\<forall>q\<in>dom (node_mem w). q < brk w" using ok by (simp add: world_ok_def)
  have nsdom: "set ?ns \<subseteq> dom (node_mem w)" using nk by (simp add: nodes_ok_def)
  have bnot: "b \<notin> set ?ns" using ltn nsdom b by auto
  have agree: "\<forall>q\<in>set ?ns. node_mem w1 q = node_mem w q" using nm1 bnot b by auto
  have em: "\<forall>t\<in>set ?es. edge_mem w1 (snd (snd t)) = edge_mem w (snd (snd t))" using em1 by simp
  have nk1: "nodes_ok w1 ?ns" by (rule nodes_ok_agree [OF nk agree])
  have ek1: "edges_ok w1 (set ?ns) ?es" by (rule edges_ok_agree [OF ek agree em])
  have g1: "graph_ok w1 (graphs w1 this)" using nk1 ek1 gr1 by (simp add: graph_ok_def)
  have d1: "\<forall>q\<in>set ?ns. deref w1 q = deref w q" using agree by (simp add: deref_def)
  have db: "deref w1 b = new" using nm1 b by (simp add: deref_def)
  have dsp: "deref w1 sp = old" using d1 spn by simp
  have inj1: "inj_on (deref w1) (set ?ns)" by (rule nodes_ok_inj [OF nk1])
  have img1: "deref w1 ` set ?ns = deref w ` set ?ns" using d1 by (auto simp: image_iff)
  let ?ns2 = "filter (\<lambda>q. deref w1 q \<noteq> deref w1 sp) ?ns"
  let ?w2 = "put_nodes this ?ns2 w1"
  have w2: "nodes_erase this sp w1 = ?w2"
    using nodes_erase_filter [OF g1, of sp] gr1 by simp
  have ns2: "set ?ns2 = set ?ns - {sp}" by (rule filter_other_ptrs [OF inj1 spn(1)])
  let ?ns3 = "set_insert (\<lambda>a c. deref w1 a < deref w1 c) b ?ns2"
  let ?u = "put_nodes this ?ns3 ?w2"
  have w3: "nodes_insert this b ?w2 = ?u"
    unfolding nodes_insert_def compare_shared_ptr_def by simp
  have r: "r = Inr True" and w': "w' = update_node this sp b ?u"
    using call sp new ne ms w2 w3 by (simp_all add: replace_node_def)
  have s2: "sorted_wrt (<) (map (deref w1) ?ns2)"
    using nodes_ok_filter [OF nk1] by (simp add: nodes_ok_def)
  have bfresh: "deref w1 b \<notin> deref w1 ` set ?ns2" using db newfresh img1 by auto
  have ns3: "set ?ns3 = insert b (set ?ns - {sp})"
    using set_insert_set [OF s2, of b] bfresh ns2 by simp
  have s3: "sorted_wrt (<) (map (deref w1) ?ns3)" by (rule set_insert_sorted [OF s2])
  have "deref w1 b \<notin> deref w1 ` (set ?ns - {b})" using db newfresh img1 by auto
  then have inju: "inj_on (deref ?u) (insert b (set ?ns))"
    using inj1 by simp
  have eku: "edges_ok ?u (set ?ns) (edges_m (graphs ?u this))" using ek1 gr1 by simp
  note U = update_node_spec [OF inju spn(1) eku w']
  have nm: "node_mem w' = node_mem w1" and bk: "brk w' = Suc (brk w)" using U bk1 by simp_all
  have gr: "nodes_m (graphs w' this) = ?ns3" using U by simp
  have ek': "edges_ok w' (set ?ns3) (edges_m (graphs w' this))" using U ns3 by simp
  have dr: "deref w' = deref w1" using nm by (simp add: fun_eq_iff deref_def)
  have dom1: "dom (node_mem w1) = insert b (dom (node_mem w))" using nm1 b by auto
  have nk': "nodes_ok w' ?ns3"
    unfolding nodes_ok_def dr using s3 ns3 nsdom dom1 nm by auto
  have g': "graph_ok w' (graphs w' this)" using nk' ek' gr by (simp add: graph_ok_def)
  have others: "\<forall>j. j \<noteq> this \<longrightarrow> graphs w' j = graphs w j" using U gr1 by simp
  have out: "\<forall>q. q \<notin> edge_ptrs (graphs w this) \<longrightarrow> edge_mem w' q = edge_mem w q"
    using U gr1 em1 by simp
  have dom: "dom (edge_mem w') = dom (edge_mem w)" using U em1 by simp
  have ptrs: "edge_ptrs (graphs w' this) \<subseteq> edge_ptrs (graphs w this)" using U gr1 by simp
  have oldn: "\<forall>p\<in>dom (node_mem w). node_mem w' p = node_mem w p"
    using nm nm1 ltn by auto
  have bounds: "(\<forall>p\<in>dom (node_mem w'). p < brk w') \<and> (\<forall>p\<in>dom (edge_mem w'). p < brk w')"
    using nm dom1 bk dom ok b by (auto simp: world_ok_def less_Suc_eq)
  have fr: "frame this w w'"
    unfolding frame_def using others oldn out bk bounds ptrs by auto
  have wok: "world_ok w'" by (rule frame_world_ok [OF ok fr g'])
  have "set (nodes this w') = deref w1 ` set ?ns3" by (simp add: nodes_def gr dr)
  also have "\<dots> = insert new (deref w1 ` (set ?ns - {sp}))" using ns3 db by simp
  also have "\<dots> = insert new (deref w1 ` set ?ns - {old})"
    using image_other_ptrs [OF inj1 spn(1)] dsp by simp
  also have "\<dots> = insert new (set (nodes this w) - {old})" using img1 by (simp add: nodes_def)
  finally have n: "set (nodes this w') = insert new (set (nodes this w) - {old})" .
  have ends: "\<forall>t\<in>set ?es. fst t \<in> set ?ns \<and> fst (snd t) \<in> set ?ns"
    using ek by (simp add: edges_ok_def)
  have "map (tuple_key w1) ?es = map (tuple_key w) ?es"
    by (rule map_tuple_key_agree [OF ends agree em])
  then have keys: "tuple_key w1 ` set ?es = tuple_key w ` set ?es" by (metis list.set_map)
  have "set (edge_records this w') = tuple_key w' ` set (edges_m (graphs w' this))"
    by (rule records_image [OF g'])
  also have "\<dots> = rename_record (deref ?u sp) (deref ?u b) ` tuple_key ?u ` set (edges_m (graphs ?u this))"
    using U by blast
  also have "\<dots> = rename_record old new ` tuple_key w1 ` set ?es"
    using dsp db gr1 by simp
  also have "\<dots> = rename_record old new ` set (edge_records this w)"
    unfolding keys by (simp add: records_image [OF g])
  finally have e: "set (edge_records this w') = rename_record old new ` set (edge_records this w)" .
  show ?thesis using wok fr r n e by simp
qed

subsection \<open>The query \<open>edges\<close>\<close>

lemma edges_records:
  assumes g: "graph_ok w (graphs w this)" and s: "is_node this s w" and d: "is_node this d w"
  shows "\<exists>es. edges this s d w = Inr es \<and>
           map record_of es = filter (\<lambda>(a, b, c). a = s \<and> b = d) (edge_records this w)"
proof -
  let ?es = "edges_m (graphs w this)"
  let ?P = "\<lambda>(src_ptr :: addr, dst_ptr :: addr, edge_ptr :: addr). deref w src_ptr = s \<and> deref w dst_ptr = d"
  let ?out = "map (\<lambda>(src_ptr :: addr, dst_ptr :: addr, edge_ptr). clone_ptr (deref_edge w edge_ptr)) (filter ?P ?es)"
  have e: "edges this s d w = Inr ?out" using s d by (simp add: edges_def)
  have rec: "record_of (clone_ptr (deref_edge w (snd (snd t)))) = tuple_key w t" if "t \<in> set ?es" for t
    using g that by (simp add: graph_ok_def edges_ok_def record_of_def clone_ptr_def tuple_key_def get_weight_def)
  have P: "?P = (\<lambda>(a, b, c). a = s \<and> b = d) \<circ> tuple_key w"
    by (auto simp: fun_eq_iff tuple_key_def)
  have "map record_of ?out = map (tuple_key w) (filter ?P ?es)"
    using rec by (auto simp: comp_def split_beta)
  also have "\<dots> = filter (\<lambda>(a, b, c). a = s \<and> b = d) (map (tuple_key w) ?es)"
    unfolding P filter_map ..
  finally show ?thesis using e traverse_keys [OF g] by simp
qed

subsection \<open>More sample stores\<close>

lemma three_nodes_facts:
  "world_ok (snd (insert_node 0 3 one_edge))"
  "nodes 0 (snd (insert_node 0 3 one_edge)) = [1, 2, 3]"
  "edge_records 0 (snd (insert_node 0 3 one_edge)) = [(1, 2, Some 5)]"
proof -
  note a = insert_node_spec [OF one_edge_ok surjective_pairing, of 0 3]
  show ok: "world_ok (snd (insert_node 0 3 one_edge))" by (rule a(1))
  show "nodes 0 (snd (insert_node 0 3 one_edge)) = [1, 2, 3]"
    by (rule nodes_unique [OF ok]) (use a(4) in \<open>auto simp: one_edge_nodes\<close>)
  show "edge_records 0 (snd (insert_node 0 3 one_edge)) = [(1, 2, Some 5)]"
    using a(5) by (simp add: one_edge_records)
qed

lemma twin_edges_facts:
  "world_ok twin_edges"
  "nodes 0 twin_edges = [1, 2, 3]"
  "edge_records 0 twin_edges = [(1, 2, Some 5), (3, 2, Some 5)]"
proof -
  have n: "is_node 0 3 (snd (insert_node 0 3 one_edge))" "is_node 0 2 (snd (insert_node 0 3 one_edge))"
    by (simp_all add: is_node_world [OF three_nodes_facts(1)] three_nodes_facts(2))
  note a = insert_edge_spec [OF three_nodes_facts(1) surjective_pairing n, of "Some 5"]
  show ok: "world_ok twin_edges" unfolding twin_edges_def by (rule a(1))
  show "nodes 0 twin_edges = [1, 2, 3]"
    unfolding twin_edges_def using a(4) by (simp add: three_nodes_facts)
  show "edge_records 0 twin_edges = [(1, 2, Some 5), (3, 2, Some 5)]"
    by (rule records_unique [OF ok]) (use a(5) in \<open>auto simp: twin_edges_def three_nodes_facts\<close>)
qed

subsection \<open>Rendering\<close>

lemma print_edge_line:
  "print_edge showN showE e =
     record_line showN showE \<lparr>from_v = src_m e, to_v = dst_m e, weight = weight_m e\<rparr>"
  by (cases e) (simp_all add: record_line_def)

lemma render_body:
  assumes "\<forall>t\<in>set ts. get_nodes (deref_edge w (snd (snd t))) = (deref w (fst t), deref w (fst (snd t)))"
  shows "concat (map (\<lambda>(src, dst, edge).
           if deref w src = n
           then ''  '' @ print_edge showN showE (deref_edge w edge) @ ''\<newline>'' else []) ts) =
        concat (map (\<lambda>v. ''  '' @ record_line showN showE v @ ''\<newline>'')
                  (filter (\<lambda>v. from_v v = n) (map (tuple_value w) ts)))"
  using assms
proof (induction ts)
  case Nil
  then show ?case by simp
next
  case (Cons t ts)
  obtain s d e where t: "t = (s, d, e)" by (cases t) auto
  have gn: "get_nodes (deref_edge w e) = (deref w s, deref w d)" using Cons.prems t by simp
  then have sd: "src_m (deref_edge w e) = deref w s" "dst_m (deref_edge w e) = deref w d"
    by (simp_all add: get_nodes_def)
  have tv: "tuple_value w t = \<lparr>from_v = deref w s, to_v = deref w d, weight = weight_m (deref_edge w e)\<rparr>"
    using gn by (simp add: t tuple_value_def get_weight_def)
  have pl: "print_edge showN showE (deref_edge w e) = record_line showN showE (tuple_value w t)"
    unfolding tv print_edge_line sd ..
  have ih: "concat (map (\<lambda>(src, dst, edge).
           if deref w src = n
           then ''  '' @ print_edge showN showE (deref_edge w edge) @ ''\<newline>'' else []) ts) =
        concat (map (\<lambda>v. ''  '' @ record_line showN showE v @ ''\<newline>'')
                  (filter (\<lambda>v. from_v v = n) (map (tuple_value w) ts)))"
    using Cons by simp
  show ?case
  proof (cases "deref w s = n")
    case True
    then have "from_v (tuple_value w t) = n" using tv by simp
    then show ?thesis using True ih pl by (simp add: t)
  next
    case False
    then have "from_v (tuple_value w t) \<noteq> n" using tv by simp
    then show ?thesis using False ih by (simp add: t)
  qed
qed

lemma render_rendering:
  assumes g: "graph_ok w (graphs w this)"
  shows "render showN showE this w = rendering showN showE (nodes this w) (traverse this w)"
proof -
  have c: "\<forall>t\<in>set (edges_m (graphs w this)).
      get_nodes (deref_edge w (snd (snd t))) = (deref w (fst t), deref w (fst (snd t)))"
    using g by (simp add: graph_ok_def edges_ok_def)
  show ?thesis
    unfolding render_def rendering_def nodes_def traverse_def
    by (simp add: render_body [OF c] comp_def)
qed

lemma records_by_source:
  fixes vs :: "('n::linorder, 'e::linorder) iter_value list"
  assumes "sorted_wrt (<) (map triple vs)"
  shows "sorted_wrt (<) (map (\<lambda>v. (to_v v, weight v)) (filter (\<lambda>v. from_v v = n) vs))"
proof -
  have "sorted_wrt (\<lambda>x y. triple x < triple y) (filter (\<lambda>v. from_v v = n) vs)"
    using assms by (simp add: sorted_wrt_map sorted_wrt_filter)
  then have "sorted_wrt (\<lambda>x y. (to_v x, weight x) < (to_v y, weight y)) (filter (\<lambda>v. from_v v = n) vs)"
    by (rule sorted_wrt_mono_rel [rotated]) (auto simp: triple_def)
  then show ?thesis by (simp add: sorted_wrt_map)
qed

lemma insert_node_chain:
  assumes "world_ok w"
  shows "world_ok (snd (insert_node this v w)) \<and>
         set (nodes this (snd (insert_node this v w))) = insert v (set (nodes this w)) \<and>
         edge_records this (snd (insert_node this v w)) = edge_records this w"
  using insert_node_spec [OF assms surjective_pairing, of this v] by simp

lemma insert_edge_chain:
  assumes "world_ok w" and "src \<in> set (nodes this w)" and "dst \<in> set (nodes this w)"
  shows "world_ok (snd (insert_edge this src dst wt w)) \<and>
         nodes this (snd (insert_edge this src dst wt w)) = nodes this w \<and>
         set (edge_records this (snd (insert_edge this src dst wt w))) =
           insert (src, dst, wt) (set (edge_records this w))"
  using insert_edge_spec [OF assms(1) surjective_pairing, of this src dst wt] assms
  by (simp add: is_node_world)

lemma init_world_views: "nodes this init_world = []" "edge_records this init_world = []"
  by (simp_all add: nodes_def edge_records_def traverse_def init_world_def)

lemma demo_nodes_facts:
  "world_ok demo_nodes"
  "nodes 0 demo_nodes = [''are'', ''hello'', ''how'', ''you?'']"
  "edge_records 0 demo_nodes = []"
proof -
  define w0 :: "(string, int) world" where "w0 = init_world"
  define w1 where "w1 = snd (insert_node 0 ''hello'' w0)"
  define w2 where "w2 = snd (insert_node 0 ''how'' w1)"
  define w3 where "w3 = snd (insert_node 0 ''are'' w2)"
  define w4 where "w4 = snd (insert_node 0 ''you?'' w3)"
  have k0: "world_ok w0" unfolding w0_def by (rule init_world_ok)
  have s1: "world_ok w1 \<and> set (nodes 0 w1) = insert ''hello'' (set (nodes 0 w0)) \<and>
      edge_records 0 w1 = edge_records 0 w0"
    unfolding w1_def by (rule insert_node_chain [OF k0])
  then have k1: "world_ok w1" by simp
  have s2: "world_ok w2 \<and> set (nodes 0 w2) = insert ''how'' (set (nodes 0 w1)) \<and>
      edge_records 0 w2 = edge_records 0 w1"
    unfolding w2_def by (rule insert_node_chain [OF k1])
  then have k2: "world_ok w2" by simp
  have s3: "world_ok w3 \<and> set (nodes 0 w3) = insert ''are'' (set (nodes 0 w2)) \<and>
      edge_records 0 w3 = edge_records 0 w2"
    unfolding w3_def by (rule insert_node_chain [OF k2])
  then have k3: "world_ok w3" by simp
  have s4: "world_ok w4 \<and> set (nodes 0 w4) = insert ''you?'' (set (nodes 0 w3)) \<and>
      edge_records 0 w4 = edge_records 0 w3"
    unfolding w4_def by (rule insert_node_chain [OF k3])
  then have k4: "world_ok w4" by simp
  have d: "demo_nodes = w4" by (simp add: demo_nodes_def w4_def w3_def w2_def w1_def w0_def)
  show ok: "world_ok demo_nodes" unfolding d by (rule k4)
  have "set (nodes 0 demo_nodes) = set [''are'', ''hello'', ''how'', ''you?'']"
    unfolding d using s1 s2 s3 s4 by (auto simp: w0_def init_world_views)
  moreover have "sorted_wrt (<) [''are'', ''hello'', ''how'', ''you?'']" by simp
  ultimately show "nodes 0 demo_nodes = [''are'', ''hello'', ''how'', ''you?'']"
    by (rule nodes_unique [OF ok])
  show "edge_records 0 demo_nodes = []"
    unfolding d using s1 s2 s3 s4 by (simp add: w0_def init_world_views)
qed

lemma demo_facts:
  "world_ok demo"
  "nodes 0 demo = [''are'', ''hello'', ''how'', ''you?'']"
  "edge_records 0 demo =
     [(''are'', ''you?'', Some 3), (''hello'', ''are'', Some 2), (''hello'', ''are'', Some 8),
      (''hello'', ''how'', Some 5), (''how'', ''hello'', Some 4), (''how'', ''you?'', Some 1)]"
proof -
  define w0 where "w0 = demo_nodes"
  define w1 where "w1 = snd (insert_edge 0 ''hello'' ''how'' (Some 5) w0)"
  define w2 where "w2 = snd (insert_edge 0 ''hello'' ''are'' (Some 8) w1)"
  define w3 where "w3 = snd (insert_edge 0 ''hello'' ''are'' (Some 2) w2)"
  define w4 where "w4 = snd (insert_edge 0 ''how'' ''you?'' (Some 1) w3)"
  define w5 where "w5 = snd (insert_edge 0 ''how'' ''hello'' (Some 4) w4)"
  define w6 where "w6 = snd (insert_edge 0 ''are'' ''you?'' (Some 3) w5)"
  have k0: "world_ok w0" unfolding w0_def by (rule demo_nodes_facts(1))
  have n0: "nodes 0 w0 = [''are'', ''hello'', ''how'', ''you?'']" unfolding w0_def by (rule demo_nodes_facts(2))
  have s1: "world_ok w1 \<and> nodes 0 w1 = nodes 0 w0 \<and>
      set (edge_records 0 w1) = insert (''hello'', ''how'', Some 5) (set (edge_records 0 w0))"
    unfolding w1_def by (rule insert_edge_chain [OF k0]) (simp_all add: n0)
  then have k1: "world_ok w1" and n1: "nodes 0 w1 = [''are'', ''hello'', ''how'', ''you?'']"
    using n0 by simp_all
  have s2: "world_ok w2 \<and> nodes 0 w2 = nodes 0 w1 \<and>
      set (edge_records 0 w2) = insert (''hello'', ''are'', Some 8) (set (edge_records 0 w1))"
    unfolding w2_def by (rule insert_edge_chain [OF k1]) (simp_all add: n1)
  then have k2: "world_ok w2" and n2: "nodes 0 w2 = [''are'', ''hello'', ''how'', ''you?'']"
    using n1 by simp_all
  have s3: "world_ok w3 \<and> nodes 0 w3 = nodes 0 w2 \<and>
      set (edge_records 0 w3) = insert (''hello'', ''are'', Some 2) (set (edge_records 0 w2))"
    unfolding w3_def by (rule insert_edge_chain [OF k2]) (simp_all add: n2)
  then have k3: "world_ok w3" and n3: "nodes 0 w3 = [''are'', ''hello'', ''how'', ''you?'']"
    using n2 by simp_all
  have s4: "world_ok w4 \<and> nodes 0 w4 = nodes 0 w3 \<and>
      set (edge_records 0 w4) = insert (''how'', ''you?'', Some 1) (set (edge_records 0 w3))"
    unfolding w4_def by (rule insert_edge_chain [OF k3]) (simp_all add: n3)
  then have k4: "world_ok w4" and n4: "nodes 0 w4 = [''are'', ''hello'', ''how'', ''you?'']"
    using n3 by simp_all
  have s5: "world_ok w5 \<and> nodes 0 w5 = nodes 0 w4 \<and>
      set (edge_records 0 w5) = insert (''how'', ''hello'', Some 4) (set (edge_records 0 w4))"
    unfolding w5_def by (rule insert_edge_chain [OF k4]) (simp_all add: n4)
  then have k5: "world_ok w5" and n5: "nodes 0 w5 = [''are'', ''hello'', ''how'', ''you?'']"
    using n4 by simp_all
  have s6: "world_ok w6 \<and> nodes 0 w6 = nodes 0 w5 \<and>
      set (edge_records 0 w6) = insert (''are'', ''you?'', Some 3) (set (edge_records 0 w5))"
    unfolding w6_def by (rule insert_edge_chain [OF k5]) (simp_all add: n5)
  then have k6: "world_ok w6" and n6: "nodes 0 w6 = [''are'', ''hello'', ''how'', ''you?'']"
    using n5 by simp_all
  have d: "demo = w6" by (simp add: demo_def w6_def w5_def w4_def w3_def w2_def w1_def w0_def)
  show ok: "world_ok demo" unfolding d by (rule k6)
  show "nodes 0 demo = [''are'', ''hello'', ''how'', ''you?'']" unfolding d by (rule n6)
  have "set (edge_records 0 demo) =
     set [(''are'', ''you?'', Some 3), (''hello'', ''are'', Some 2), (''hello'', ''are'', Some 8),
      (''hello'', ''how'', Some 5), (''how'', ''hello'', Some 4), (''how'', ''you?'', Some 1)]"
    unfolding d using s1 s2 s3 s4 s5 s6 by (auto simp: w0_def demo_nodes_facts(3))
  moreover have "sorted_wrt (<)
     [(''are'', ''you?'', Some (3::int)), (''hello'', ''are'', Some 2), (''hello'', ''are'', Some 8),
      (''hello'', ''how'', Some 5), (''how'', ''hello'', Some 4), (''how'', ''you?'', Some 1)]"
    by simp
  ultimately show "edge_records 0 demo =
     [(''are'', ''you?'', Some 3), (''hello'', ''are'', Some 2), (''hello'', ''are'', Some 8),
      (''hello'', ''how'', Some 5), (''how'', ''hello'', Some 4), (''how'', ''you?'', Some 1)]"
    by (rule records_unique [OF ok])
qed


lemma triple_inverse: "triple v = (a, b, c) \<Longrightarrow> v = \<lparr>from_v = a, to_v = b, weight = c\<rparr>"
  by (cases v) (simp add: triple_def)

lemma traverse_of_records:
  "traverse this w = map (\<lambda>(a, b, c). \<lparr>from_v = a, to_v = b, weight = c\<rparr>) (edge_records this w)"
  unfolding edge_records_def map_map
  by (rule map_idI [symmetric]) (auto simp: triple_def)

lemma demo_render:
  "render show_string show_int 0 demo =
     ''\<newline>are (\<newline>  are -> you? | W | 3\<newline>)\<newline>hello (\<newline>  hello -> are | W | 2\<newline>  hello -> are | W | 8\<newline>  hello -> how | W | 5\<newline>)\<newline>how (\<newline>  how -> hello | W | 4\<newline>  how -> you? | W | 1\<newline>)\<newline>you? (\<newline>)\<newline>''"
  unfolding render_rendering [OF world_ok_graph [OF demo_facts(1)]] traverse_of_records demo_facts
  by (simp add: rendering_def record_line_def show_string_def show_int_def digit_char_def)

subsection \<open>What a call on one graph leaves of another\<close>

lemma frame_views:
  assumes ok: "world_ok w" and fr: "frame this w w'" and j: "j \<noteq> this"
  shows "graphs w' j = graphs w j"
    and "nodes j w' = nodes j w"
    and "traverse j w' = traverse j w"
    and "edge_records j w' = edge_records j w"
    and "render showN showE j w' = render showN showE j w"
    and "\<forall>p\<in>set (nodes_m (graphs w j)). deref w' p = deref w p"
    and "\<forall>t\<in>set (edges_m (graphs w j)). tuple_key w' t = tuple_key w t \<and>
           deref_edge w' (snd (snd t)) = deref_edge w (snd (snd t))"
proof -
  note f = frame_other_graph [OF ok fr j]
  have g: "graph_ok w (graphs w j)" by (rule world_ok_graph [OF ok])
  show gr: "graphs w' j = graphs w j" by (rule f(1))
  show dn: "\<forall>p\<in>set (nodes_m (graphs w j)). deref w' p = deref w p"
    using f(2) by (simp add: deref_def)
  have de: "\<forall>t\<in>set (edges_m (graphs w j)). deref_edge w' (snd (snd t)) = deref_edge w (snd (snd t))"
    using f(3) by (simp add: deref_edge_def edge_ptrs_def)
  have ends: "\<forall>t\<in>set (edges_m (graphs w j)).
      fst t \<in> set (nodes_m (graphs w j)) \<and> fst (snd t) \<in> set (nodes_m (graphs w j))"
    using g by (simp add: graph_ok_def edges_ok_def)
  show tk: "\<forall>t\<in>set (edges_m (graphs w j)). tuple_key w' t = tuple_key w t \<and>
           deref_edge w' (snd (snd t)) = deref_edge w (snd (snd t))"
    using dn de ends by (simp add: tuple_key_def)
  show "nodes j w' = nodes j w" using dn by (simp add: nodes_def gr)
  show tr: "traverse j w' = traverse j w" using de by (simp add: traverse_def gr tuple_value_def)
  show "edge_records j w' = edge_records j w" using tr by (simp add: edge_records_def)
  have "render showN showE j w' =
     ''\<newline>'' @
     concat (map (\<lambda>node.
        showN (deref w node) @ '' (\<newline>'' @
        concat (map (\<lambda>(src, dst, edge).
           if deref w src = deref w node
           then ''  '' @ print_edge showN showE (deref_edge w edge) @ ''\<newline>'' else [])
         (edges_m (graphs w j))) @
        '')\<newline>'')
      (nodes_m (graphs w j)))"
    unfolding render_def gr
    by (intro arg_cong2 [where f = "(@)"] arg_cong [where f = concat] map_cong refl)
       (use dn de ends in \<open>auto simp: split_beta\<close>)
  then show "render showN showE j w' = render showN showE j w" by (simp add: render_def)
qed

lemma list_all2_same_image: "list_all2 (\<lambda>l r. f l = f r) xs ys \<longleftrightarrow> map f xs = map f ys"
  by (induction xs ys rule: list_induct2') auto

lemma graph_eq_iff:
  assumes a: "graph_ok w (graphs w this)" and b: "graph_ok w (graphs w other)"
  shows "graph_eq this other w \<longleftrightarrow>
         nodes this w = nodes other w \<and> edge_records this w = edge_records other w"
proof -
  have cell: "get_nodes (deref_edge w (snd (snd t))) = (fst (tuple_key w t), fst (snd (tuple_key w t))) \<and>
      get_weight (deref_edge w (snd (snd t))) = snd (snd (tuple_key w t))"
    if "t \<in> set (edges_m (graphs w i))" "graph_ok w (graphs w i)" for t i
    using that by (simp add: graph_ok_def edges_ok_def tuple_key_def get_weight_def)
  have "list_all2 (\<lambda>lhs rhs. edge_eq (deref_edge w (snd (snd lhs))) (deref_edge w (snd (snd rhs))))
             (edges_m (graphs w this)) (edges_m (graphs w other)) \<longleftrightarrow>
        list_all2 (\<lambda>l r. tuple_key w l = tuple_key w r)
             (edges_m (graphs w this)) (edges_m (graphs w other))"
  proof (rule list.rel_cong [OF refl refl])
    fix l r assume l: "l \<in> set (edges_m (graphs w this))" and r: "r \<in> set (edges_m (graphs w other))"
    show "edge_eq (deref_edge w (snd (snd l))) (deref_edge w (snd (snd r))) \<longleftrightarrow>
          tuple_key w l = tuple_key w r"
      unfolding edge_eq_def using cell [OF l a] cell [OF r b] by (auto simp: prod_eq_iff)
  qed
  then have e: "list_all2 (\<lambda>lhs rhs. edge_eq (deref_edge w (snd (snd lhs))) (deref_edge w (snd (snd rhs))))
             (edges_m (graphs w this)) (edges_m (graphs w other)) \<longleftrightarrow>
           edge_records this w = edge_records other w"
    unfolding traverse_keys [OF a] traverse_keys [OF b] list_all2_same_image .
  have n: "list_all2 (\<lambda>lhs rhs. deref w lhs = deref w rhs)
             (nodes_m (graphs w this)) (nodes_m (graphs w other)) \<longleftrightarrow>
           nodes this w = nodes other w"
    unfolding nodes_def list_all2_same_image ..
  have l: "nodes this w = nodes other w \<Longrightarrow>
           length (nodes_m (graphs w this)) = length (nodes_m (graphs w other))"
    unfolding nodes_def by (rule map_eq_imp_length_eq)
  have l2: "edge_records this w = edge_records other w \<Longrightarrow>
           length (edges_m (graphs w this)) = length (edges_m (graphs w other))"
    unfolding traverse_keys [OF a] traverse_keys [OF b] by (rule map_eq_imp_length_eq)
  show ?thesis
    unfolding graph_eq_def using e n l l2 by auto
qed

subsection \<open>Construction, copy and move\<close>

lemma add_node_ptrs:
  assumes ms: "make_shared v w = (p, w1)" and w': "w' = nodes_insert this p w1"
  shows "set (nodes_m (graphs w' this)) \<subseteq> insert (brk w) (set (nodes_m (graphs w this)))"
  using set_insert_subset [of "compare_shared_ptr w1" p "nodes_m (graphs w this)"]
    make_shared_fields [OF ms]
  by (simp add: w' nodes_insert_def)

text \<open>The loop of the range constructor.\<close>

lemma graph_range_loop:
  assumes "world_ok w"
  shows "world_ok (foldl (\<lambda>w' elem. let (p, w1) = make_shared elem w' in nodes_insert this p w1) w elems) \<and>
         frame this w (foldl (\<lambda>w' elem. let (p, w1) = make_shared elem w' in nodes_insert this p w1) w elems) \<and>
         set (nodes this (foldl (\<lambda>w' elem. let (p, w1) = make_shared elem w' in nodes_insert this p w1) w elems)) =
           set (nodes this w) \<union> set elems \<and>
         edge_records this (foldl (\<lambda>w' elem. let (p, w1) = make_shared elem w' in nodes_insert this p w1) w elems) =
           edge_records this w"
  using assms
proof (induction elems arbitrary: w)
  case Nil
  then show ?case by (simp add: frame_refl)
next
  case (Cons v vs)
  obtain p w1 where ms: "make_shared v w = (p, w1)" by (cases "make_shared v w") auto
  let ?w2 = "nodes_insert this p w1"
  note a = add_node [OF Cons.prems ms refl, of this]
  have ok2: "world_ok ?w2" by (rule frame_world_ok [OF Cons.prems a(1) a(2)])
  note ih = Cons.IH [OF ok2]
  let ?f = "\<lambda>w' elem. let (p, w1) = make_shared elem w' in nodes_insert this p w1"
  have step: "foldl ?f w (v # vs) = foldl ?f ?w2 vs" using ms by simp
  have fr: "frame this w (foldl ?f ?w2 vs)"
    by (rule frame_trans [OF Cons.prems a(1)]) (use ih in blast)
  show ?case unfolding step using ih fr a(3) a(5) by auto
qed

lemma graph_range_spec:
  assumes "world_ok w"
  shows "world_ok (graph_range this elems w) \<and> frame this w (graph_range this elems w) \<and>
         set (nodes this (graph_range this elems w)) = set elems \<and>
         edge_records this (graph_range this elems w) = []"
proof -
  note c = clear_spec [OF assms, of this]
  note l = graph_range_loop [OF c(1), of this elems]
  have fr: "frame this w (graph_range this elems w)"
    unfolding graph_range_def graph_default_clear
    by (rule frame_trans [OF assms c(2)]) (use l in blast)
  show ?thesis
    using l fr c(3,4) unfolding graph_range_def graph_default_clear by simp
qed

text \<open>The first loop of \<open>deep_copy\<close>, over node pointers of another graph object.\<close>

lemma deep_copy_nodes:
  assumes "world_ok w" and "this \<noteq> other" and "set ns \<subseteq> set (nodes_m (graphs w other))"
  shows "world_ok (foldl (\<lambda>w' n. let (p, w'') = make_shared (deref w' n) w' in nodes_insert this p w'') w ns) \<and>
         frame this w (foldl (\<lambda>w' n. let (p, w'') = make_shared (deref w' n) w' in nodes_insert this p w'') w ns) \<and>
         set (nodes this (foldl (\<lambda>w' n. let (p, w'') = make_shared (deref w' n) w' in nodes_insert this p w'') w ns)) =
           set (nodes this w) \<union> deref w ` set ns \<and>
         edge_records this (foldl (\<lambda>w' n. let (p, w'') = make_shared (deref w' n) w' in nodes_insert this p w'') w ns) =
           edge_records this w \<and>
         set (nodes_m (graphs (foldl (\<lambda>w' n. let (p, w'') = make_shared (deref w' n) w' in nodes_insert this p w'') w ns) this))
           \<subseteq> set (nodes_m (graphs w this)) \<union> {p. brk w \<le> p}"
  using assms
proof (induction ns arbitrary: w)
  case Nil
  then show ?case by (simp add: frame_refl)
next
  case (Cons n ns)
  let ?f = "\<lambda>w' n. let (p, w'') = make_shared (deref w' n) w' in nodes_insert this p w''"
  obtain p w1 where ms: "make_shared (deref w n) w = (p, w1)" by (cases "make_shared (deref w n) w") auto
  let ?w2 = "nodes_insert this p w1"
  note a = add_node [OF Cons.prems(1) ms refl, of this]
  have ok2: "world_ok ?w2" by (rule frame_world_ok [OF Cons.prems(1) a(1) a(2)])
  have o: "other \<noteq> this" using Cons.prems(2) by simp
  note v = frame_views [OF Cons.prems(1) a(1) o]
  have sub2: "set ns \<subseteq> set (nodes_m (graphs ?w2 other))" using Cons.prems(3) v(1) by simp
  note ih = Cons.IH [OF ok2 Cons.prems(2) sub2]
  have step: "foldl ?f w (n # ns) = foldl ?f ?w2 ns" using ms by simp
  have fr: "frame this w (foldl ?f ?w2 ns)"
    by (rule frame_trans [OF Cons.prems(1) a(1)]) (use ih in blast)
  have d: "deref ?w2 ` set ns = deref w ` set ns"
    using v(6) Cons.prems(3) by (auto simp: image_iff subset_iff)
  have bk: "brk w \<le> brk ?w2" using a(1) by (simp add: frame_def)
  have ptrs: "set (nodes_m (graphs (foldl ?f ?w2 ns) this)) \<subseteq> set (nodes_m (graphs w this)) \<union> {p. brk w \<le> p}"
    using ih add_node_ptrs [OF ms refl, of this] bk by fastforce
  show ?case unfolding step using ih fr a(3) a(5) d ptrs by auto
qed

text \<open>The second loop of \<open>deep_copy\<close>, over tuples of another graph object that has the
  same node values: no call of \<open>insert_edge\<close> raises.\<close>

lemma deep_copy_edges_spec:
  assumes "world_ok w" and "this \<noteq> other" and "set ts \<subseteq> set (edges_m (graphs w other))"
    and "nodes this w = nodes other w"
  shows "\<exists>w'. deep_copy_edges this ts w = (Inr (), w') \<and> world_ok w' \<and> frame this w w' \<and>
           nodes this w' = nodes this w \<and>
           nodes_m (graphs w' this) = nodes_m (graphs w this) \<and>
           set (edge_records this w') = set (edge_records this w) \<union> tuple_key w ` set ts"
  using assms
proof (induction ts arbitrary: w)
  case Nil
  then show ?case by (simp add: frame_refl)
next
  case (Cons t ts)
  obtain s d e where t: "t = (s, d, e)" by (cases t) auto
  have go: "graph_ok w (graphs w other)" by (rule world_ok_graph [OF Cons.prems(1)])
  have tin: "t \<in> set (edges_m (graphs w other))" using Cons.prems(3) by simp
  then have ends: "s \<in> set (nodes_m (graphs w other))" "d \<in> set (nodes_m (graphs w other))"
    using go t by (auto simp: graph_ok_def edges_ok_def)
  then have "deref w s \<in> set (nodes this w)" "deref w d \<in> set (nodes this w)"
    unfolding Cons.prems(4) by (simp_all add: nodes_def)
  then have n: "is_node this (deref w s) w" "is_node this (deref w d) w"
    by (simp_all add: is_node_world [OF Cons.prems(1)])
  obtain r w1 where c: "insert_edge this (deref w s) (deref w d) (get_weight (deref_edge w e)) w = (r, w1)"
    by (cases "insert_edge this (deref w s) (deref w d) (get_weight (deref_edge w e)) w") auto
  note a = insert_edge_spec [OF Cons.prems(1) c n]
  have o: "other \<noteq> this" using Cons.prems(2) by simp
  note v = frame_views [OF Cons.prems(1) a(2) o]
  have sub1: "set ts \<subseteq> set (edges_m (graphs w1 other))" using Cons.prems(3) v(1) by simp
  have n1: "nodes this w1 = nodes other w1" using a(4) v(2) Cons.prems(4) by simp
  obtain w' where ih: "deep_copy_edges this ts w1 = (Inr (), w')" "world_ok w'" "frame this w1 w'"
    "nodes this w' = nodes this w1" "nodes_m (graphs w' this) = nodes_m (graphs w1 this)"
    "set (edge_records this w') = set (edge_records this w1) \<union> tuple_key w1 ` set ts"
    using Cons.IH [OF a(1) Cons.prems(2) sub1 n1] by blast
  have step: "deep_copy_edges this (t # ts) w = (Inr (), w')"
    using c a(3) ih(1) by (simp add: t)
  have fr: "frame this w w'" by (rule frame_trans [OF Cons.prems(1) a(2) ih(3)])
  have k: "tuple_key w1 ` set ts = tuple_key w ` set ts"
  proof (rule image_cong [OF refl])
    fix x assume "x \<in> set ts"
    then have "x \<in> set (edges_m (graphs w other))" using Cons.prems(3) by auto
    then show "tuple_key w1 x = tuple_key w x" using v(7) by blast
  qed
  have kt: "(deref w s, deref w d, get_weight (deref_edge w e)) = tuple_key w t"
    by (simp add: t tuple_key_def get_weight_def)
  have "set (edge_records this w') = set (edge_records this w) \<union> tuple_key w ` set (t # ts)"
    unfolding ih(6) a(5) k kt by auto
  then show ?case using step ih(2) fr ih(4) ih(5) a(4) a(6) by auto
qed

lemma deep_copy_spec:
  assumes ok: "world_ok w" and ne: "this \<noteq> other"
  shows "\<exists>w'. deep_copy this other w = (Inr (), w') \<and> world_ok w' \<and> frame this w w' \<and>
           nodes this w' = nodes other w \<and> edge_records this w' = edge_records other w \<and>
           set (nodes_m (graphs w' this)) \<subseteq> {p. brk w \<le> p}"
proof -
  let ?w1 = "clear this w"
  let ?f = "\<lambda>w' n. let (p, w'') = make_shared (deref w' n) w' in nodes_insert this p w''"
  let ?w2 = "foldl ?f ?w1 (nodes_m (graphs ?w1 other))"
  note c = clear_spec [OF ok, of this]
  have o: "other \<noteq> this" using ne by simp
  note v1 = frame_views [OF ok c(2) o]
  note l = deep_copy_nodes [OF c(1) ne subset_refl]
  have ok2: "world_ok ?w2" and fr12: "frame this ?w1 ?w2" using l by blast+
  have fr2: "frame this w ?w2" by (rule frame_trans [OF ok c(2) fr12])
  note v2 = frame_views [OF ok fr2 o]
  have "set (nodes this ?w2) = deref ?w1 ` set (nodes_m (graphs ?w1 other))" using l c(3) by simp
  also have "\<dots> = set (nodes other ?w1)" by (simp add: nodes_def)
  finally have "set (nodes this ?w2) = set (nodes other ?w2)" using v1(2) v2(2) by simp
  then have n2: "nodes this ?w2 = nodes other ?w2"
    by (rule nodes_unique [OF ok2 _ nodes_sorted [OF ok2]])
  have e2: "edge_records this ?w2 = []" using l c(4) by simp
  have p2: "set (nodes_m (graphs ?w2 this)) \<subseteq> {p. brk w \<le> p}"
    using l c(5) by (simp add: clear_def)
  obtain w' where d: "deep_copy_edges this (edges_m (graphs ?w2 other)) ?w2 = (Inr (), w')"
    "world_ok w'" "frame this ?w2 w'" "nodes this w' = nodes this ?w2"
    "nodes_m (graphs w' this) = nodes_m (graphs ?w2 this)"
    "set (edge_records this w') = set (edge_records this ?w2) \<union> tuple_key ?w2 ` set (edges_m (graphs ?w2 other))"
    using deep_copy_edges_spec [OF ok2 ne subset_refl n2] by blast
  have fr: "frame this w w'" by (rule frame_trans [OF ok fr2 d(3)])
  have "set (edge_records this w') = set (edge_records other ?w2)"
    unfolding d(6) e2 using traverse_keys [OF world_ok_graph [OF ok2], of other] by simp
  then have "set (edge_records this w') = set (edge_records other w)" using v2(4) by simp
  then have e: "edge_records this w' = edge_records other w"
    by (rule records_unique [OF d(2) _ records_sorted [OF ok]])
  have n: "nodes this w' = nodes other w" using d(4) n2 v2(2) by simp
  have "deep_copy this other w = (Inr (), w')" using d(1) by (simp add: deep_copy_def Let_def)
  then show ?thesis using d(2) fr n e d(5) p2 by auto
qed

lemma deep_copy_self:
  assumes ok: "world_ok w"
  shows "deep_copy this this w = (Inr (), clear this w)"
  by (simp add: deep_copy_def Let_def clear_def)

lemma exchange_into_spec:
  assumes ok: "world_ok w"
  shows "world_ok (exchange_into this other w)"
    and "\<forall>j. j \<noteq> this \<and> j \<noteq> other \<longrightarrow> graphs (exchange_into this other w) j = graphs w j"
    and "node_mem (exchange_into this other w) = node_mem w \<and>
         edge_mem (exchange_into this other w) = edge_mem w \<and> brk (exchange_into this other w) = brk w"
    and "this \<noteq> other \<Longrightarrow> graphs (exchange_into this other w) this = graphs w other \<and>
           graphs (exchange_into this other w) other = \<lparr>nodes_m = [], edges_m = []\<rparr>"
proof -
  let ?w' = "exchange_into this other w"
  have mem: "node_mem ?w' = node_mem w" "edge_mem ?w' = edge_mem w" "brk ?w' = brk w"
    by (simp_all add: exchange_into_def Let_def)
  show "node_mem ?w' = node_mem w \<and> edge_mem ?w' = edge_mem w \<and> brk ?w' = brk w" using mem by simp
  show others: "\<forall>j. j \<noteq> this \<and> j \<noteq> other \<longrightarrow> graphs ?w' j = graphs w j"
    by (simp add: exchange_into_def Let_def)
  have same: "graphs ?w' = graphs w" if "this = other"
    using that by (cases "graphs w other") (auto simp: exchange_into_def Let_def put_nodes_def put_edges_def fun_eq_iff)
  have diff: "graphs ?w' this = graphs w other \<and> graphs ?w' other = \<lparr>nodes_m = [], edges_m = []\<rparr>"
    if "this \<noteq> other"
    using that by (cases "graphs w other"; cases "graphs w this")
      (auto simp: exchange_into_def Let_def put_nodes_def put_edges_def)
  show "this \<noteq> other \<Longrightarrow> graphs ?w' this = graphs w other \<and>
           graphs ?w' other = \<lparr>nodes_m = [], edges_m = []\<rparr>" by (rule diff)
  have gk: "graph_ok ?w' g" if "graph_ok w g" for g
    by (rule graph_ok_agree [OF that]) (simp_all add: mem)
  show "world_ok ?w'"
  proof (cases "this = other")
    case True
    then show ?thesis using ok same mem gk by (simp add: world_ok_def)
  next
    case False
    have g: "graph_ok ?w' (graphs ?w' i)" for i
    proof -
      consider "i = this" | "i = other" | "i \<noteq> this" "i \<noteq> other" by blast
      then show ?thesis
      proof cases
        case 1
        then show ?thesis using diff [OF False] gk [OF world_ok_graph [OF ok, of other]] by simp
      next
        case 2
        then show ?thesis using diff [OF False] by (simp add: graph_ok_def nodes_ok_def edges_ok_def)
      next
        case 3
        then show ?thesis using others gk [OF world_ok_graph [OF ok, of i]] by simp
      qed
    qed
    have ptr: "edge_ptrs (graphs ?w' i) =
        (if i = this then edge_ptrs (graphs w other) else if i = other then {} else edge_ptrs (graphs w i))" for i
      using diff [OF False] others by (auto simp: edge_ptrs_def)
    have dj: "\<forall>i j. i \<noteq> j \<longrightarrow> edge_ptrs (graphs ?w' i) \<inter> edge_ptrs (graphs ?w' j) = {}"
      unfolding ptr using ok by (auto simp: world_ok_def)
    show ?thesis unfolding world_ok_def using g dj mem ok by (simp add: world_ok_def)
  qed
qed

subsection \<open>Every call keeps the store well formed\<close>

lemma replace_node_frame:
  assumes ok: "world_ok w"
  shows "world_ok (snd (replace_node g a b w)) \<and> frame g w (snd (replace_node g a b w))"
proof (cases "is_node g a w")
  case False
  then show ?thesis using replace_node_error [of g a w b] ok frame_refl [OF ok] by simp
next
  case True
  show ?thesis
  proof (cases "is_node g b w")
    case yes: True
    then show ?thesis using replace_node_existing [OF True yes] ok frame_refl [OF ok] by simp
  next
    case False
    then show ?thesis using replace_node_spec [OF ok surjective_pairing True False] by simp
  qed
qed

lemma merge_replace_node_frame:
  assumes ok: "world_ok w"
  shows "world_ok (snd (merge_replace_node g a b w)) \<and> frame g w (snd (merge_replace_node g a b w))"
proof (cases "is_node g a w \<and> is_node g b w")
  case False
  then show ?thesis using merge_replace_node_error [of g a w b] ok frame_refl [OF ok] by auto
next
  case True
  show ?thesis
  proof (cases "a = b")
    case same: True
    then show ?thesis using merge_replace_node_same [of g a w] True ok frame_refl [OF ok] by simp
  next
    case False
    then show ?thesis using merge_replace_node_spec [OF ok surjective_pairing _ _ False] True by simp
  qed
qed

lemma insert_edge_frame:
  assumes ok: "world_ok w"
  shows "world_ok (snd (insert_edge g a b wt w)) \<and> frame g w (snd (insert_edge g a b wt w))"
proof (cases "is_node g a w \<and> is_node g b w")
  case False
  then show ?thesis using insert_edge_error [of g a w b wt] ok frame_refl [OF ok] by auto
next
  case True
  then show ?thesis using insert_edge_spec [OF ok surjective_pairing] by simp
qed

lemma erase_edge_frame:
  assumes ok: "world_ok w"
  shows "world_ok (snd (erase_edge g a b wt w)) \<and> frame g w (snd (erase_edge g a b wt w))"
proof (cases "is_node g a w \<and> is_node g b w")
  case False
  then have "snd (erase_edge g a b wt w) = w" by (auto simp: erase_edge_def)
  then show ?thesis using ok frame_refl [OF ok] by simp
next
  case True
  then show ?thesis using erase_edge_spec [OF ok surjective_pairing] by simp
qed

lemma mutation_frame:
  assumes ok: "world_ok w" and m: "is_mutation c" and a: "admissible c w"
  shows "world_ok (after c w) \<and> frame (target c) w (after c w)"
proof (cases c)
  case (Insert_node g v)
  then show ?thesis using insert_node_spec [OF ok surjective_pairing, where this = g and v = v] by simp
next
  case (Insert_edge g src dst wt)
  then show ?thesis using insert_edge_frame [OF ok] by simp
next
  case (Replace_node g x y)
  then show ?thesis using replace_node_frame [OF ok] by simp
next
  case (Merge_replace_node g x y)
  then show ?thesis using merge_replace_node_frame [OF ok] by simp
next
  case (Erase_node g v)
  then show ?thesis using erase_node_spec [OF ok surjective_pairing, where this = g and v = v] by simp
next
  case (Erase_edge g src dst wt)
  then show ?thesis using erase_edge_frame [OF ok] by simp
next
  case (Erase_edge_at g i)
  then show ?thesis using erase_edge_it_spec [OF ok surjective_pairing, where this = g and i = i] by simp
next
  case (Erase_edge_span g i s)
  then show ?thesis using erase_edge_range_spec [OF ok surjective_pairing, where this = g and i = i and s = s] a by simp
next
  case (Clear g)
  then show ?thesis using clear_spec [OF ok, where this = g] by simp
qed (use m in simp_all)

lemma deep_copy_ok:
  assumes ok: "world_ok w"
  shows "world_ok (snd (deep_copy g other w))"
proof (cases "g = other")
  case True
  then show ?thesis using deep_copy_self [OF ok, where this = g] clear_spec(1) [OF ok, where this = g] by simp
next
  case False
  then show ?thesis using deep_copy_spec [OF ok False] by auto
qed

lemma after_ok:
  assumes ok: "world_ok w" and a: "admissible c w"
  shows "world_ok (after c w)"
proof (cases "is_mutation c")
  case True
  then show ?thesis using mutation_frame [OF ok True a] by simp
next
  case False
  then show ?thesis
  proof (cases c)
    case (Construct g)
    then show ?thesis using clear_spec(1) [OF ok, where this = g] by (simp add: graph_default_clear)
  next
    case (Construct_from g elems)
    then show ?thesis using graph_range_spec [OF ok, where this = g and elems = elems] by simp
  next
    case (Copy_construct g other)
    have "world_ok (graph_default g w)" using clear_spec(1) [OF ok, where this = g] by (simp add: graph_default_clear)
    then show ?thesis using Copy_construct deep_copy_ok by (simp add: graph_copy_def)
  next
    case (Move_construct g other)
    then show ?thesis using exchange_into_spec(1) [OF ok] by (simp add: graph_move_def)
  next
    case (Copy_assignment g other)
    then show ?thesis using deep_copy_ok [OF ok] ok by (simp add: copy_assign_def)
  next
    case (Move_assignment g other)
    then show ?thesis using exchange_into_spec(1) [OF ok] ok by (simp add: move_assign_def)
  qed simp_all
qed

lemma reachable_ok: "reachable w \<Longrightarrow> world_ok w"
  by (induction rule: reachable.induct) (simp_all add: init_world_ok after_ok)

subsection \<open>Copies are independent\<close>

lemma frame_same_graph:
  assumes "world_ok w" and "frame this w w'" and "g \<noteq> this"
  shows "same_graph g w w'"
  using frame_views [OF assms] by (simp add: same_graph_def)

lemma traverse_eq_records:
  "traverse a w = traverse b w' \<longleftrightarrow> edge_records a w = edge_records b w'"
proof
  assume "traverse a w = traverse b w'"
  then show "edge_records a w = edge_records b w'" by (simp add: edge_records_def)
next
  assume "edge_records a w = edge_records b w'"
  then show "traverse a w = traverse b w'"
    using traverse_of_records [of a w] traverse_of_records [of b w'] by simp
qed

lemma deep_copy_independent:
  assumes ok: "world_ok w" and ne: "c \<noteq> g"
  shows "fst (deep_copy c g w) = Inr () \<and> independent_copy c g w (snd (deep_copy c g w)) \<and>
         frame c w (snd (deep_copy c g w))"
proof -
  obtain w' where d: "deep_copy c g w = (Inr (), w')" "world_ok w'" "frame c w w'"
    "nodes c w' = nodes g w" "edge_records c w' = edge_records g w"
    "set (nodes_m (graphs w' c)) \<subseteq> {p. brk w \<le> p}"
    using deep_copy_spec [OF ok ne] by blast
  have o: "g \<noteq> c" using ne by simp
  note v = frame_views [OF ok d(3) o]
  have sg: "same_graph g w w'" by (rule frame_same_graph [OF ok d(3) o])
  have n: "nodes c w' = nodes g w'" using d(4) v(2) by simp
  have e: "edge_records c w' = edge_records g w'" using d(5) v(4) by simp
  have eq: "graph_eq c g w'" "graph_eq g c w'"
    using graph_eq_iff [OF world_ok_graph [OF d(2)] world_ok_graph [OF d(2)]] n e by simp_all
  have t: "traverse c w' = traverse g w" using d(5) by (simp add: traverse_eq_records)
  have "\<forall>p\<in>set (nodes_m (graphs w' g)). p < brk w"
    using world_ok_node_lt [OF ok, of _ g] v(1) by simp
  then have dn: "set (nodes_m (graphs w' c)) \<inter> set (nodes_m (graphs w' g)) = {}"
    using d(6) by fastforce
  have de: "edge_ptrs (graphs w' c) \<inter> edge_ptrs (graphs w' g) = {}"
    using d(2) ne by (simp add: world_ok_def)
  show ?thesis
    using d(1,2,3,4) eq t sg dn de by (simp add: independent_copy_def)
qed

lemma independent_copy_base:
  assumes "independent_copy c g w1 w'" and "nodes g w1 = nodes g w" and "traverse g w1 = traverse g w"
    and "same_graph g w w1"
  shows "independent_copy c g w w'"
  using assms by (simp add: independent_copy_def same_graph_def)

lemma graph_copy_independent:
  assumes ok: "world_ok w" and ne: "c \<noteq> g"
  shows "fst (graph_copy c g w) = Inr () \<and> independent_copy c g w (snd (graph_copy c g w)) \<and>
         frame c w (snd (graph_copy c g w))"
proof -
  note cl = clear_spec [OF ok, where this = c]
  have o: "g \<noteq> c" using ne by simp
  note v = frame_views [OF ok cl(2) o]
  note d = deep_copy_independent [OF cl(1) ne]
  have sg: "same_graph g w (clear c w)" by (rule frame_same_graph [OF ok cl(2) o])
  have ic: "independent_copy c g w (snd (deep_copy c g (clear c w)))"
    by (rule independent_copy_base [OF _ v(2) v(3) sg]) (use d in simp)
  have fr: "frame c w (snd (deep_copy c g (clear c w)))"
    by (rule frame_trans [OF ok cl(2)]) (use d in simp)
  show ?thesis using d ic fr by (simp add: graph_copy_def graph_default_clear)
qed

lemma mutation_same_graph:
  assumes ok: "world_ok w" and m: "is_mutation m" and a: "admissible m w" and g: "target m \<noteq> g"
  shows "same_graph g w (after m w)"
    and "k \<noteq> target m \<Longrightarrow> graph_eq g k (after m w) = graph_eq g k w"
proof -
  note f = mutation_frame [OF ok m a]
  have ok': "world_ok (after m w)" and fr: "frame (target m) w (after m w)" using f by simp_all
  have o: "g \<noteq> target m" using g by simp
  show "same_graph g w (after m w)" by (rule frame_same_graph [OF ok fr o])
  show "graph_eq g k (after m w) = graph_eq g k w" if k: "k \<noteq> target m"
    unfolding graph_eq_iff [OF world_ok_graph [OF ok'] world_ok_graph [OF ok']]
      graph_eq_iff [OF world_ok_graph [OF ok] world_ok_graph [OF ok]]
    using frame_views(2,4) [OF ok fr o] frame_views(2,4) [OF ok fr k] by simp
qed


lemma one_edge_reachable: "reachable one_edge"
proof -
  have r0: "reachable (init_world :: (int, int) world)" by (rule reachable.start)
  have r1: "reachable (after (Insert_node 0 1) (init_world :: (int, int) world))"
    by (rule reachable.step [OF r0]) simp
  have r2: "reachable (after (Insert_node 0 2) (after (Insert_node 0 1) (init_world :: (int, int) world)))"
    by (rule reachable.step [OF r1]) simp
  have "reachable (after (Insert_edge 0 1 2 (Some 5))
      (after (Insert_node 0 2) (after (Insert_node 0 1) (init_world :: (int, int) world))))"
    by (rule reachable.step [OF r2]) simp
  then show ?thesis by (simp add: one_edge_def two_nodes_def)
qed

section \<open>The claims\<close>

text \<open>
  C3. Whenever \<open>insert_edge\<close>, \<open>replace_node\<close>, \<open>merge_replace_node\<close> or \<open>erase_edge\<close> (by
  value) raises its error, the store after the call is the store before it: the nodes
  and edges of the graph are exactly as they were. The three queries that raise the same
  kind of error, \<open>is_connected\<close>, \<open>edges\<close> and \<open>connections\<close>, are \<open>const\<close>: they yield a
  result and no store, and they raise only when a node they name is absent.
\<close>

theorem error_leaves_store_unchanged:
  "(fst (insert_edge this src dst wt w) = Inl e1 \<longrightarrow> snd (insert_edge this src dst wt w) = w) \<and>
   (fst (replace_node this src dst w) = Inl e2 \<longrightarrow> snd (replace_node this src dst w) = w) \<and>
   (fst (merge_replace_node this src dst w) = Inl e3 \<longrightarrow> snd (merge_replace_node this src dst w) = w) \<and>
   (fst (erase_edge this src dst wt w) = Inl e4 \<longrightarrow> snd (erase_edge this src dst wt w) = w) \<and>
   (is_connected this src dst w = Inl e5 \<longrightarrow> \<not> is_node this src w \<or> \<not> is_node this dst w) \<and>
   (edges this src dst w = Inl e6 \<longrightarrow> \<not> is_node this src w \<or> \<not> is_node this dst w) \<and>
   (connections this src w = Inl e7 \<longrightarrow> \<not> is_node this src w)"
proof (intro conjI impI)
  assume "fst (insert_edge this src dst wt w) = Inl e1"
  then show "snd (insert_edge this src dst wt w) = w"
    by (auto simp: insert_edge_def Let_def split: option.splits prod.splits if_splits)
next
  assume "fst (replace_node this src dst w) = Inl e2"
  then show "snd (replace_node this src dst w) = w"
    by (auto simp: replace_node_def Let_def split: option.splits prod.splits if_splits)
next
  assume "fst (merge_replace_node this src dst w) = Inl e3"
  then show "snd (merge_replace_node this src dst w) = w"
    by (auto simp: merge_replace_node_def split: option.splits if_splits)
next
  assume "fst (erase_edge this src dst wt w) = Inl e4"
  then show "snd (erase_edge this src dst wt w) = w"
    by (auto simp: erase_edge_def Let_def split: if_splits)
next
  assume "is_connected this src dst w = Inl e5"
  then show "\<not> is_node this src w \<or> \<not> is_node this dst w"
    by (auto simp: is_connected_def split: if_splits)
next
  assume "edges this src dst w = Inl e6"
  then show "\<not> is_node this src w \<or> \<not> is_node this dst w"
    by (auto simp: edges_def split: if_splits)
next
  assume "connections this src w = Inl e7"
  then show "\<not> is_node this src w"
    by (auto simp: connections_def split: if_splits)
qed

theorem error_leaves_store_unchanged_witness:
  "fst (insert_edge 0 (1::int) 2 (Some (5::int)) init_world) =
     Inl (runtime_error ''Cannot call gdwg::graph<N, E>::insert_edge when either src or dst node does not exist'') \<and>
   snd (insert_edge 0 (1::int) 2 (Some (5::int)) init_world) = init_world \<and>
   fst (replace_node 0 (1::int) 2 (init_world :: (int, int) world)) =
     Inl (runtime_error ''Cannot call gdwg::graph<N, E>::replace_node on a node that doesn't exist'') \<and>
   snd (replace_node 0 (1::int) 2 (init_world :: (int, int) world)) = init_world \<and>
   fst (merge_replace_node 0 (1::int) 2 (init_world :: (int, int) world)) =
     Inl (runtime_error ''Cannot call gdwg::graph<N, E>::merge_replace_node on old or new data if they don't exist in the graph'') \<and>
   snd (merge_replace_node 0 (1::int) 2 (init_world :: (int, int) world)) = init_world \<and>
   fst (erase_edge 0 (1::int) 2 (Some (5::int)) init_world) =
     Inl (runtime_error ''Cannot call gdwg::graph<N, E>::erase_edge on src or dst if they don't exist in the graph'') \<and>
   snd (erase_edge 0 (1::int) 2 (Some (5::int)) init_world) = init_world \<and>
   is_connected 0 (1::int) 2 (init_world :: (int, int) world) =
     Inl (runtime_error ''Cannot call gdwg::graph<N, E>::is_connected if src or dst node don't exist in the graph'') \<and>
   edges 0 (1::int) 2 (init_world :: (int, int) world) =
     Inl (runtime_error ''Cannot call gdwg::graph<N, E>::edges if src or dst node don't exist in the graph'') \<and>
   connections 0 (1::int) (init_world :: (int, int) world) =
     Inl (runtime_error ''Cannot call gdwg::graph<N, E>::connections if src doesn't exist in the graph'') \<and>
   \<not> is_node 0 (1::int) (init_world :: (int, int) world)"
  using error_leaves_store_unchanged [of 0 "1::int" 2 "Some (5::int)" init_world
      "runtime_error ''Cannot call gdwg::graph<N, E>::insert_edge when either src or dst node does not exist''"
      "runtime_error ''Cannot call gdwg::graph<N, E>::replace_node on a node that doesn't exist''"
      "runtime_error ''Cannot call gdwg::graph<N, E>::merge_replace_node on old or new data if they don't exist in the graph''"
      "runtime_error ''Cannot call gdwg::graph<N, E>::erase_edge on src or dst if they don't exist in the graph''"
      "runtime_error ''Cannot call gdwg::graph<N, E>::is_connected if src or dst node don't exist in the graph''"
      "runtime_error ''Cannot call gdwg::graph<N, E>::edges if src or dst node don't exist in the graph''"
      "runtime_error ''Cannot call gdwg::graph<N, E>::connections if src doesn't exist in the graph''"]
  by (simp add: init_no_node init_find_none insert_edge_def replace_node_def merge_replace_node_def
      erase_edge_def is_connected_def edges_def connections_def)

text \<open>
  C7. \<open>find\<close> has no error result. It returns a position before \<open>end()\<close> exactly when the
  graph stores the record \<open>(src, dst, weight)\<close>, and that position is the first (in a
  well-formed graph the only) one whose value is the record; otherwise it returns
  \<open>end()\<close>. So it returns \<open>end()\<close> when \<open>src\<close> and \<open>dst\<close> are nodes and no record with
  that weight is stored, and, in a well-formed store, when \<open>src\<close> or \<open>dst\<close> is not a node.
\<close>

theorem find_returns_position_or_end:
  "((src, dst, wt) \<in> set (edge_records this w) \<longrightarrow>
      find_edge this src dst wt w < end_it this w \<and>
      triple (iter_deref this (find_edge this src dst wt w) w) = (src, dst, wt) \<and>
      (\<forall>i < find_edge this src dst wt w. triple (iter_deref this i w) \<noteq> (src, dst, wt))) \<and>
   ((src, dst, wt) \<notin> set (edge_records this w) \<longrightarrow> find_edge this src dst wt w = end_it this w) \<and>
   (world_ok w \<and> (\<not> is_node this src w \<or> \<not> is_node this dst w) \<longrightarrow>
      find_edge this src dst wt w = end_it this w)"
proof (intro conjI impI)
  let ?i = "find_edge this src dst wt w"
  let ?rs = "edge_records this w"
  have le: "?i \<le> end_it this w" unfolding find_edge_records end_it_records by (rule find_if_le)
  have e: "?i = end_it this w \<longleftrightarrow> (src, dst, wt) \<notin> set ?rs"
    unfolding find_edge_records end_it_records find_if_end by auto
  {
    assume "(src, dst, wt) \<in> set ?rs"
    then show lt: "?i < end_it this w" using le e by simp
    have "?rs ! ?i = (src, dst, wt)"
      using find_if_nth [of "\<lambda>k. k = (src, dst, wt)" ?rs] lt
      unfolding find_edge_records end_it_records by simp
    then show "triple (iter_deref this ?i w) = (src, dst, wt)"
      using iter_deref_records [OF lt] by simp
    show "\<forall>i < ?i. triple (iter_deref this i w) \<noteq> (src, dst, wt)"
    proof (intro allI impI)
      fix i assume i: "i < ?i"
      then have "i < end_it this w" using le by simp
      then have "triple (iter_deref this i w) = ?rs ! i" by (rule iter_deref_records)
      moreover have "?rs ! i \<noteq> (src, dst, wt)"
        using find_if_first [of i "\<lambda>k. k = (src, dst, wt)" ?rs] i
        unfolding find_edge_records by simp
      ultimately show "triple (iter_deref this i w) \<noteq> (src, dst, wt)" by simp
    qed
  }
  {
    assume "(src, dst, wt) \<notin> set ?rs"
    then show "?i = end_it this w" using e by simp
  }
  {
    assume a: "world_ok w \<and> (\<not> is_node this src w \<or> \<not> is_node this dst w)"
    then have "src \<notin> set (nodes this w) \<or> dst \<notin> set (nodes this w)"
      using is_node_iff [OF world_ok_graph] by blast
    then have "(src, dst, wt) \<notin> set ?rs" using records_ends [of w src dst wt this] a by blast
    then show "?i = end_it this w" using e by simp
  }
qed

theorem find_returns_position_or_end_witness:
  "(1, 2, Some 5) \<in> set (edge_records 0 one_edge) \<and>
   find_edge 0 1 2 (Some 5) one_edge < end_it 0 one_edge \<and>
   triple (iter_deref 0 (find_edge 0 1 2 (Some 5) one_edge) one_edge) = (1, 2, Some 5) \<and>
   (1, 2, Some 7) \<notin> set (edge_records 0 one_edge) \<and>
   find_edge 0 1 2 (Some 7) one_edge = end_it 0 one_edge \<and>
   world_ok one_edge \<and> \<not> is_node 0 3 one_edge \<and>
   find_edge 0 3 2 (Some 5) one_edge = end_it 0 one_edge"
  using find_returns_position_or_end [of 1 2 "Some 5" 0 one_edge]
    find_returns_position_or_end [of 1 2 "Some 7" 0 one_edge]
    find_returns_position_or_end [of 3 2 "Some 5" 0 one_edge]
    one_edge_ok
  by (simp add: one_edge_records is_node_iff [OF world_ok_graph [OF one_edge_ok]] one_edge_nodes)

text \<open>
  C10. An absent weight names the unweighted record only. In a well-formed graph whose
  nodes include \<open>src\<close> and \<open>dst\<close> and in which every edge from \<open>src\<close> to \<open>dst\<close> is
  weighted, \<open>find(src, dst)\<close> returns \<open>end()\<close> and \<open>erase_edge(src, dst)\<close> returns false and
  leaves the store as it is.
\<close>

theorem absent_weight_is_not_a_wildcard:
  assumes "world_ok w" and "is_node this src w" and "is_node this dst w"
    and "\<forall>v\<in>set (traverse this w). from_v v = src \<and> to_v v = dst \<longrightarrow> weight v \<noteq> None"
  shows "find_edge this src dst None w = end_it this w \<and>
         erase_edge this src dst None w = (Inr False, w)"
proof -
  have n: "(src, dst, None) \<notin> set (edge_records this w)"
    using assms(4) by (auto simp: edge_records_def triple_def)
  have a: "find_edge this src dst None w = end_it this w"
    unfolding find_edge_records end_it_records find_if_end using n by auto
  obtain r w' where c: "erase_edge this src dst None w = (r, w')"
    by (cases "erase_edge this src dst None w") auto
  have "r = Inr False" "w' = w"
    using erase_edge_spec(3,6) [OF assms(1) c assms(2,3)] n by simp_all
  then show ?thesis using a c by simp
qed

theorem absent_weight_is_not_a_wildcard_witness:
  "world_ok one_edge \<and> is_node 0 1 one_edge \<and> is_node 0 2 one_edge \<and>
   map weight (filter (\<lambda>v. from_v v = 1 \<and> to_v v = 2) (traverse 0 one_edge)) = [Some 5] \<and>
   find_edge 0 1 2 None one_edge = end_it 0 one_edge \<and>
   erase_edge 0 1 2 None one_edge = (Inr False, one_edge)"
proof -
  have n: "is_node 0 1 one_edge" "is_node 0 2 one_edge"
    by (simp_all add: is_node_iff [OF world_ok_graph [OF one_edge_ok]] one_edge_nodes)
  have rs: "map triple (traverse 0 one_edge) = [(1, 2, Some 5)]"
    using one_edge_records by (simp add: edge_records_def)
  then obtain v where v: "traverse 0 one_edge = [v]" "triple v = (1, 2, Some 5)" by auto
  have h: "\<forall>v\<in>set (traverse 0 one_edge). from_v v = 1 \<and> to_v v = 2 \<longrightarrow> weight v \<noteq> None"
    using v by (simp add: triple_def)
  have e: "map weight (filter (\<lambda>v. from_v v = 1 \<and> to_v v = 2) (traverse 0 one_edge)) = [Some 5]"
    using v by (simp add: triple_def)
  show ?thesis
    using absent_weight_is_not_a_wildcard [OF one_edge_ok n h] one_edge_ok n e by simp
qed

text \<open>
  C5. In a well-formed store, \<open>erase_node(v)\<close> returns false and changes nothing if \<open>v\<close> is
  not a node. Otherwise it returns true, \<open>v\<close> is no longer a node, the other nodes stay,
  the edges that stay are exactly those with neither source nor destination \<open>v\<close> (so
  a self-loop on \<open>v\<close> goes too), and \<open>is_connected\<close> with \<open>v\<close> as either argument raises
  its error.
\<close>

theorem erase_node_cascades:
  assumes "world_ok w"
  shows "(\<not> is_node this v w \<longrightarrow> erase_node this v w = (False, w)) \<and>
         (is_node this v w \<longrightarrow>
            fst (erase_node this v w) = True \<and>
            \<not> is_node this v (snd (erase_node this v w)) \<and>
            nodes this (snd (erase_node this v w)) = filter (\<lambda>x. x \<noteq> v) (nodes this w) \<and>
            edge_records this (snd (erase_node this v w)) =
              filter (\<lambda>(a, b, c). a \<noteq> v \<and> b \<noteq> v) (edge_records this w) \<and>
            (\<forall>x. is_connected this v x (snd (erase_node this v w)) =
                   Inl (runtime_error ''Cannot call gdwg::graph<N, E>::is_connected if src or dst node don't exist in the graph'') \<and>
                 is_connected this x v (snd (erase_node this v w)) =
                   Inl (runtime_error ''Cannot call gdwg::graph<N, E>::is_connected if src or dst node don't exist in the graph'')))"
proof -
  obtain r w' where c: "erase_node this v w = (r, w')" by (cases "erase_node this v w") auto
  note a = erase_node_spec [OF assms c]
  have n: "is_node this v w \<longleftrightarrow> v \<in> set (nodes this w)" by (rule is_node_world [OF assms])
  have n': "\<not> is_node this v w'" using is_node_world [OF a(1), of this v] a(4) by simp
  then have "\<forall>x. is_connected this v x w' =
                   Inl (runtime_error ''Cannot call gdwg::graph<N, E>::is_connected if src or dst node don't exist in the graph'') \<and>
                 is_connected this x v w' =
                   Inl (runtime_error ''Cannot call gdwg::graph<N, E>::is_connected if src or dst node don't exist in the graph'')"
    by (simp add: is_connected_def)
  then show ?thesis using a n n' c by simp
qed

theorem erase_node_cascades_witness:
  "world_ok loop_edge \<and> is_node 0 1 loop_edge \<and> \<not> is_node 0 3 loop_edge \<and>
   erase_node 0 3 loop_edge = (False, loop_edge) \<and>
   edge_records 0 loop_edge = [(1, 1, None), (1, 2, Some 5)] \<and>
   fst (erase_node 0 1 loop_edge) = True \<and>
   nodes 0 (snd (erase_node 0 1 loop_edge)) = [2] \<and>
   edge_records 0 (snd (erase_node 0 1 loop_edge)) = [] \<and>
   is_connected 0 1 2 (snd (erase_node 0 1 loop_edge)) =
     Inl (runtime_error ''Cannot call gdwg::graph<N, E>::is_connected if src or dst node don't exist in the graph'') \<and>
   is_connected 0 2 1 (snd (erase_node 0 1 loop_edge)) =
     Inl (runtime_error ''Cannot call gdwg::graph<N, E>::is_connected if src or dst node don't exist in the graph'')"
  using erase_node_cascades [OF loop_edge_ok, of 0 1] erase_node_cascades [OF loop_edge_ok, of 0 3]
    loop_edge_ok
  by (simp add: is_node_world [OF loop_edge_ok] loop_edge_nodes loop_edge_records)

text \<open>
  C6. In a well-formed graph whose nodes include \<open>src\<close> and \<open>dst\<close>, the first of two
  calls \<open>insert_edge(src, dst, weight)\<close> with the same triple returns true when the record
  is not stored yet (and only then), the second returns false, and the record is stored
  after each of the two calls. Records that differ in the weight are independent: whether
  \<open>insert_edge(src, dst, weight')\<close> returns true is not changed by a call with another
  weight before it, so on a graph that holds neither, the unweighted and a weighted edge
  between the same nodes are both inserted with result true, and both are stored.
\<close>

theorem insert_edge_twice:
  assumes "world_ok w" and "is_node this src w" and "is_node this dst w"
  shows "(let (r1, w1) = insert_edge this src dst wt w;
              (r2, w2) = insert_edge this src dst wt w1
          in r1 = Inr ((src, dst, wt) \<notin> set (edge_records this w)) \<and> r2 = Inr False \<and>
             (src, dst, wt) \<in> set (edge_records this w1) \<and>
             (src, dst, wt) \<in> set (edge_records this w2)) \<and>
         (wt \<noteq> wt' \<longrightarrow>
            (let (r1, w1) = insert_edge this src dst wt w;
                 (r2, w2) = insert_edge this src dst wt' w1
             in r1 = Inr ((src, dst, wt) \<notin> set (edge_records this w)) \<and>
                r2 = Inr ((src, dst, wt') \<notin> set (edge_records this w)) \<and>
                {(src, dst, wt), (src, dst, wt')} \<subseteq> set (edge_records this w2)))"
proof -
  obtain r1 w1 where c1: "insert_edge this src dst wt w = (r1, w1)"
    by (cases "insert_edge this src dst wt w") auto
  note a = insert_edge_spec [OF assms(1) c1 assms(2,3)]
  have n1: "is_node this src w1" "is_node this dst w1"
    using assms a(1,4) by (simp_all add: is_node_world)
  obtain r2 w2 where c2: "insert_edge this src dst wt w1 = (r2, w2)"
    by (cases "insert_edge this src dst wt w1") auto
  note b = insert_edge_spec [OF a(1) c2 n1]
  obtain r3 w3 where c3: "insert_edge this src dst wt' w1 = (r3, w3)"
    by (cases "insert_edge this src dst wt' w1") auto
  note d = insert_edge_spec [OF a(1) c3 n1]
  show ?thesis using a(3,5) b(3,5) d(3,5) c1 c2 c3 by auto
qed

theorem insert_edge_twice_witness:
  "world_ok two_nodes \<and> is_node 0 1 two_nodes \<and> is_node 0 2 two_nodes \<and>
   fst (insert_edge 0 1 2 (Some 5) two_nodes) = Inr True \<and>
   fst (insert_edge 0 1 2 (Some 5) (snd (insert_edge 0 1 2 (Some 5) two_nodes))) = Inr False \<and>
   fst (insert_edge 0 1 2 None two_nodes) = Inr True \<and>
   fst (insert_edge 0 1 2 (Some 5) (snd (insert_edge 0 1 2 None two_nodes))) = Inr True"
  using insert_edge_twice [OF two_nodes_ok, of 0 1 2 "Some 5" "None"]
    insert_edge_twice [OF two_nodes_ok, of 0 1 2 "None" "Some 5"] two_nodes_ok
  by (simp add: is_node_world [OF two_nodes_ok] two_nodes_nodes two_nodes_records split: prod.splits)

text \<open>
  C1, as the code has it. In a well-formed store, \<open>replace_node(old, new)\<close> raises its
  error and changes nothing if \<open>old\<close> is not a node; it returns false and changes
  nothing if \<open>old\<close> is a node and \<open>new\<close> is a node, also when \<open>old == new\<close> (the test
  \<open>is_node(new_data)\<close> comes before the comparison of the two values); otherwise it
  returns true, the nodes are the old ones with \<open>new\<close> in the place of \<open>old\<close>, and the
  records are the old ones with every endpoint \<open>old\<close> rewritten to \<open>new\<close>, both still in
  ascending order.
\<close>

theorem replace_node_renames:
  assumes "world_ok w"
  shows "(\<not> is_node this old w \<longrightarrow>
            replace_node this old new w =
              (Inl (runtime_error ''Cannot call gdwg::graph<N, E>::replace_node on a node that doesn't exist''), w)) \<and>
         (is_node this old w \<and> is_node this new w \<longrightarrow> replace_node this old new w = (Inr False, w)) \<and>
         (is_node this old w \<and> \<not> is_node this new w \<longrightarrow>
            fst (replace_node this old new w) = Inr True \<and>
            world_ok (snd (replace_node this old new w)) \<and>
            set (nodes this (snd (replace_node this old new w))) = insert new (set (nodes this w) - {old}) \<and>
            sorted_wrt (<) (nodes this (snd (replace_node this old new w))) \<and>
            set (edge_records this (snd (replace_node this old new w))) =
              rename_record old new ` set (edge_records this w) \<and>
            sorted_wrt (<) (edge_records this (snd (replace_node this old new w))))"
proof -
  obtain r w' where c: "replace_node this old new w = (r, w')"
    by (cases "replace_node this old new w") auto
  have "is_node this old w \<and> \<not> is_node this new w \<longrightarrow>
          r = Inr True \<and> world_ok w' \<and>
          set (nodes this w') = insert new (set (nodes this w) - {old}) \<and>
          sorted_wrt (<) (nodes this w') \<and>
          set (edge_records this w') = rename_record old new ` set (edge_records this w) \<and>
          sorted_wrt (<) (edge_records this w')"
    using replace_node_spec [OF assms c] nodes_sorted [of w' this] records_sorted [of w' this]
    by blast
  then show ?thesis
    using c replace_node_error [of this old w new] replace_node_existing [of this old w new]
    by simp
qed


theorem replace_node_renames_witness:
  "world_ok one_edge \<and> \<not> is_node 0 7 one_edge \<and>
   replace_node 0 7 3 one_edge =
     (Inl (runtime_error ''Cannot call gdwg::graph<N, E>::replace_node on a node that doesn't exist''), one_edge) \<and>
   is_node 0 1 one_edge \<and> is_node 0 2 one_edge \<and>
   replace_node 0 1 2 one_edge = (Inr False, one_edge) \<and>
   \<not> is_node 0 3 one_edge \<and>
   fst (replace_node 0 1 3 one_edge) = Inr True \<and>
   nodes 0 (snd (replace_node 0 1 3 one_edge)) = [2, 3] \<and>
   edge_records 0 (snd (replace_node 0 1 3 one_edge)) = [(3, 2, Some 5)]"
proof -
  have n: "is_node 0 1 one_edge" "is_node 0 2 one_edge" "\<not> is_node 0 3 one_edge" "\<not> is_node 0 7 one_edge"
    by (simp_all add: is_node_world [OF one_edge_ok] one_edge_nodes)
  note a = replace_node_renames [OF one_edge_ok, of 0 7 3]
  note b = replace_node_renames [OF one_edge_ok, of 0 1 2]
  note c = replace_node_renames [OF one_edge_ok, of 0 1 3]
  have ok': "world_ok (snd (replace_node 0 1 3 one_edge))" using c n by blast
  have ns: "nodes 0 (snd (replace_node 0 1 3 one_edge)) = [2, 3]"
    by (rule nodes_unique [OF ok']) (use c n in \<open>auto simp: one_edge_nodes\<close>)
  have es: "edge_records 0 (snd (replace_node 0 1 3 one_edge)) = [(3, 2, Some 5)]"
    by (rule records_unique [OF ok']) (use c n in \<open>auto simp: one_edge_records rename_record_def\<close>)
  show ?thesis using a b c n ns es one_edge_ok by simp
qed

text \<open>The claim C1 as it is written fails where \<open>old == new\<close>: the call returns false.\<close>

theorem replace_node_same_value_counterexample:
  "is_node 0 1 one_edge \<and> fst (replace_node 0 1 1 one_edge) = Inr False \<and>
   fst (replace_node 0 1 1 one_edge) \<noteq> Inr True"
  using replace_node_existing [of 0 1 one_edge 1] one_edge_is_node by simp

text \<open>
  C4. In a well-formed store: \<open>merge_replace_node(a, b)\<close> raises its error and changes
  nothing if \<open>a\<close> or \<open>b\<close> is not a node, and succeeds changing nothing if \<open>a == b\<close> is a
  node. If both are nodes and differ, it succeeds, \<open>a\<close> is no longer a node and the other
  nodes stay; the records are the old ones with every endpoint \<open>a\<close> rewritten to \<open>b\<close>
  (source, destination or both), each once and in ascending order; and for every two
  nodes the query \<open>edges\<close> returns records that are pairwise different.
\<close>

theorem merge_replace_node_merges:
  assumes "world_ok w"
  shows "(\<not> is_node this a w \<or> \<not> is_node this b w \<longrightarrow>
            merge_replace_node this a b w =
              (Inl (runtime_error ''Cannot call gdwg::graph<N, E>::merge_replace_node on old or new data if they don't exist in the graph''), w)) \<and>
         (is_node this a w \<and> a = b \<longrightarrow> merge_replace_node this a b w = (Inr (), w)) \<and>
         (is_node this a w \<and> is_node this b w \<and> a \<noteq> b \<longrightarrow>
            fst (merge_replace_node this a b w) = Inr () \<and>
            world_ok (snd (merge_replace_node this a b w)) \<and>
            \<not> is_node this a (snd (merge_replace_node this a b w)) \<and>
            nodes this (snd (merge_replace_node this a b w)) = filter (\<lambda>x. x \<noteq> a) (nodes this w) \<and>
            set (edge_records this (snd (merge_replace_node this a b w))) =
              rename_record a b ` set (edge_records this w) \<and>
            sorted_wrt (<) (edge_records this (snd (merge_replace_node this a b w))) \<and>
            distinct (edge_records this (snd (merge_replace_node this a b w))) \<and>
            (\<forall>s d. is_node this s (snd (merge_replace_node this a b w)) \<and>
                   is_node this d (snd (merge_replace_node this a b w)) \<longrightarrow>
               (\<exists>es. edges this s d (snd (merge_replace_node this a b w)) = Inr es \<and>
                     distinct (map record_of es))))"
proof -
  obtain r w' where c: "merge_replace_node this a b w = (r, w')"
    by (cases "merge_replace_node this a b w") auto
  have main: "r = Inr () \<and> world_ok w' \<and> \<not> is_node this a w' \<and>
      nodes this w' = filter (\<lambda>x. x \<noteq> a) (nodes this w) \<and>
      set (edge_records this w') = rename_record a b ` set (edge_records this w) \<and>
      sorted_wrt (<) (edge_records this w') \<and> distinct (edge_records this w') \<and>
      (\<forall>s d. is_node this s w' \<and> is_node this d w' \<longrightarrow>
         (\<exists>es. edges this s d w' = Inr es \<and> distinct (map record_of es)))"
    if h: "is_node this a w" "is_node this b w" "a \<noteq> b"
  proof -
    note m = merge_replace_node_spec [OF assms c h]
    have ok': "world_ok w'" using m by blast
    have srt: "sorted_wrt (<) (edge_records this w')" by (rule records_sorted [OF ok'])
    then have dist: "distinct (edge_records this w')" by (simp add: strict_sorted_iff)
    have na: "\<not> is_node this a w'" using m is_node_world [OF ok', of this a] by simp
    have q: "\<exists>es. edges this s d w' = Inr es \<and> distinct (map record_of es)"
      if hs: "is_node this s w'" and hd: "is_node this d w'" for s d
    proof -
      obtain es where es: "edges this s d w' = Inr es"
        "map record_of es = filter (\<lambda>(a, b, c). a = s \<and> b = d) (edge_records this w')"
        using edges_records [OF world_ok_graph [OF ok', of this] hs hd] by blast
      have "distinct (map record_of es)" unfolding es(2) using dist by simp
      then show ?thesis using es(1) by blast
    qed
    show ?thesis using m srt dist na q by blast
  qed
  show ?thesis
    using c main merge_replace_node_error [of this a w b] merge_replace_node_same [of this a w]
    by auto
qed

theorem merge_replace_node_merges_witness:
  "world_ok twin_edges \<and> \<not> is_node 0 7 twin_edges \<and>
   merge_replace_node 0 7 1 twin_edges =
     (Inl (runtime_error ''Cannot call gdwg::graph<N, E>::merge_replace_node on old or new data if they don't exist in the graph''), twin_edges) \<and>
   is_node 0 1 twin_edges \<and> merge_replace_node 0 1 1 twin_edges = (Inr (), twin_edges) \<and>
   is_node 0 3 twin_edges \<and>
   edge_records 0 twin_edges = [(1, 2, Some 5), (3, 2, Some 5)] \<and>
   fst (merge_replace_node 0 1 3 twin_edges) = Inr () \<and>
   nodes 0 (snd (merge_replace_node 0 1 3 twin_edges)) = [2, 3] \<and>
   edge_records 0 (snd (merge_replace_node 0 1 3 twin_edges)) = [(3, 2, Some 5)] \<and>
   (\<exists>es. edges 0 3 2 (snd (merge_replace_node 0 1 3 twin_edges)) = Inr es \<and> distinct (map record_of es))"
proof -
  have n: "is_node 0 1 twin_edges" "is_node 0 3 twin_edges" "\<not> is_node 0 7 twin_edges"
    by (simp_all add: is_node_world [OF twin_edges_facts(1)] twin_edges_facts(2))
  note a = merge_replace_node_merges [OF twin_edges_facts(1), of 0 7 1]
  note b = merge_replace_node_merges [OF twin_edges_facts(1), of 0 1 1]
  note c = merge_replace_node_merges [OF twin_edges_facts(1), of 0 1 3]
  let ?w = "snd (merge_replace_node 0 1 3 twin_edges)"
  have ok': "world_ok ?w" using c n by simp
  have ns: "nodes 0 ?w = [2, 3]" using c n by (simp add: twin_edges_facts)
  have es: "edge_records 0 ?w = [(3, 2, Some 5)]"
    by (rule records_unique [OF ok']) (use c n in \<open>auto simp: twin_edges_facts rename_record_def\<close>)
  have n': "is_node 0 3 ?w" "is_node 0 2 ?w" by (simp_all add: is_node_world [OF ok'] ns)
  have "\<forall>s d. is_node 0 s ?w \<and> is_node 0 d ?w \<longrightarrow>
          (\<exists>es. edges 0 s d ?w = Inr es \<and> distinct (map record_of es))"
    using c n by simp
  then have q: "\<exists>es. edges 0 3 2 ?w = Inr es \<and> distinct (map record_of es)" using n' by blast
  show ?thesis using a b c n ns es q twin_edges_facts by simp
qed

text \<open>
  C8. The text written for a well-formed graph is the format of the specification applied
  to the node list and the edge sequence: a leading newline, then per node, in
  ascending order of the values, the header line, one line indented by two spaces per
  edge whose source is the node, and the line \<open>)\<close>; the lines of one node are in
  ascending order of destination and weight, the absent weight before any weight, and a
  node without outgoing edges has nothing between its header and its \<open>)\<close>. For the graph
  of the demonstration program the text is exactly the one the specification quotes.
\<close>

theorem render_follows_format:
  assumes "world_ok w"
  shows "render showN showE g w = rendering showN showE (nodes g w) (traverse g w) \<and>
         sorted_wrt (<) (nodes g w) \<and>
         (\<forall>n. sorted_wrt (<) (map (\<lambda>v. (to_v v, weight v)) (filter (\<lambda>v. from_v v = n) (traverse g w)))) \<and>
         (\<forall>n. rendering showN showE [n] [] =
                ''\<newline>'' @ showN n @ '' (\<newline>)\<newline>'') \<and>
         render show_string show_int 0 demo =
           ''\<newline>are (\<newline>  are -> you? | W | 3\<newline>)\<newline>hello (\<newline>  hello -> are | W | 2\<newline>  hello -> are | W | 8\<newline>  hello -> how | W | 5\<newline>)\<newline>how (\<newline>  how -> hello | W | 4\<newline>  how -> you? | W | 1\<newline>)\<newline>you? (\<newline>)\<newline>''"
proof -
  have "sorted_wrt (<) (map triple (traverse g w))"
    using records_sorted [OF assms, of g] by (simp add: edge_records_def)
  then have "\<forall>n. sorted_wrt (<) (map (\<lambda>v. (to_v v, weight v)) (filter (\<lambda>v. from_v v = n) (traverse g w)))"
    using records_by_source by blast
  then show ?thesis
    using render_rendering [OF world_ok_graph [OF assms], of showN showE g] nodes_sorted [OF assms, of g]
      demo_render
    by (simp add: rendering_def)
qed

theorem render_follows_format_witness:
  "world_ok demo \<and>
   nodes 0 demo = [''are'', ''hello'', ''how'', ''you?''] \<and>
   map triple (traverse 0 demo) =
     [(''are'', ''you?'', Some 3), (''hello'', ''are'', Some 2), (''hello'', ''are'', Some 8),
      (''hello'', ''how'', Some 5), (''how'', ''hello'', Some 4), (''how'', ''you?'', Some 1)] \<and>
   render show_string show_int 0 demo =
     rendering show_string show_int (nodes 0 demo) (traverse 0 demo) \<and>
   sorted_wrt (<) (map (\<lambda>v. (to_v v, weight v)) (filter (\<lambda>v. from_v v = ''hello'') (traverse 0 demo)))"
  using render_follows_format [OF demo_facts(1), of show_string show_int 0] demo_facts
  by (simp add: edge_records_def)

text \<open>
  C2. In every store reached from the empty one by calls of the public operations
  (with the arguments the language admits), every edge that iteration over a graph
  yields has a source and a destination that are nodes of that graph, and this is so
  again after any further call, a rename or a merge among them. Moreover
  \<open>insert_edge\<close> raises and changes nothing when an endpoint is not a node, and after
  \<open>erase_node(x)\<close> no edge of the graph has \<open>x\<close> as source or destination.
\<close>

theorem edges_have_their_nodes:
  assumes "reachable w"
  shows "(\<forall>v\<in>set (traverse g w). is_node g (from_v v) w \<and> is_node g (to_v v) w) \<and>
         (\<forall>c. admissible c w \<longrightarrow>
            (\<forall>v\<in>set (traverse g (after c w)).
               is_node g (from_v v) (after c w) \<and> is_node g (to_v v) (after c w))) \<and>
         (\<not> is_node g src w \<or> \<not> is_node g dst w \<longrightarrow>
            insert_edge g src dst wt w =
              (Inl (runtime_error ''Cannot call gdwg::graph<N, E>::insert_edge when either src or dst node does not exist''), w)) \<and>
         (\<forall>v\<in>set (traverse g (snd (erase_node g x w))). from_v v \<noteq> x \<and> to_v v \<noteq> x)"
proof -
  have inv: "\<forall>v\<in>set (traverse g u). is_node g (from_v v) u \<and> is_node g (to_v v) u"
    if u: "reachable u" for u :: "('a, 'b) world"
  proof
    have ok: "world_ok u" by (rule reachable_ok [OF u])
    fix v assume "v \<in> set (traverse g u)"
    then have "(from_v v, to_v v, weight v) \<in> set (edge_records g u)"
      by (auto simp: edge_records_def triple_def)
    then show "is_node g (from_v v) u \<and> is_node g (to_v v) u"
      using records_ends [OF ok] by (simp add: is_node_world [OF ok])
  qed
  have ok: "world_ok w" by (rule reachable_ok [OF assms])
  have a: "\<forall>v\<in>set (traverse g w). is_node g (from_v v) w \<and> is_node g (to_v v) w"
    by (rule inv [OF assms])
  have b: "\<forall>c. admissible c w \<longrightarrow>
            (\<forall>v\<in>set (traverse g (after c w)).
               is_node g (from_v v) (after c w) \<and> is_node g (to_v v) (after c w))"
    using inv [OF reachable.step [OF assms]] by blast
  have c: "\<forall>v\<in>set (traverse g (snd (erase_node g x w))). from_v v \<noteq> x \<and> to_v v \<noteq> x"
  proof
    fix v assume "v \<in> set (traverse g (snd (erase_node g x w)))"
    then have "(from_v v, to_v v, weight v) \<in> set (edge_records g (snd (erase_node g x w)))"
      by (auto simp: edge_records_def triple_def)
    then show "from_v v \<noteq> x \<and> to_v v \<noteq> x"
      unfolding erase_node_spec(5) [OF ok surjective_pairing] by simp
  qed
  have d: "\<not> is_node g src w \<or> \<not> is_node g dst w \<longrightarrow>
            insert_edge g src dst wt w =
              (Inl (runtime_error ''Cannot call gdwg::graph<N, E>::insert_edge when either src or dst node does not exist''), w)"
    using insert_edge_error [of g src w dst wt] by blast
  show ?thesis using a b c d by blast
qed

theorem edges_have_their_nodes_witness:
  "reachable one_edge \<and>
   map triple (traverse 0 one_edge) = [(1, 2, Some 5)] \<and>
   is_node 0 1 one_edge \<and> is_node 0 2 one_edge \<and>
   \<not> is_node 0 3 one_edge \<and>
   insert_edge 0 3 2 None one_edge =
     (Inl (runtime_error ''Cannot call gdwg::graph<N, E>::insert_edge when either src or dst node does not exist''), one_edge) \<and>
   map triple (traverse 0 (snd (erase_node 0 2 one_edge))) = [] \<and>
   admissible (Replace_node 0 2 3) one_edge \<and>
   set (map triple (traverse 0 (after (Replace_node 0 2 3) one_edge))) = {(1, 3, Some 5)} \<and>
   is_node 0 1 (after (Replace_node 0 2 3) one_edge) \<and>
   is_node 0 3 (after (Replace_node 0 2 3) one_edge)"
proof -
  note t = edges_have_their_nodes [OF one_edge_reachable, of 0 3 2 None 2]
  have r: "map triple (traverse 0 one_edge) = [(1, 2, Some 5)]"
    using one_edge_records by (simp add: edge_records_def)
  then obtain v where v: "traverse 0 one_edge = [v]" "triple v = (1, 2, Some 5)" by auto
  have n: "is_node 0 1 one_edge \<and> is_node 0 2 one_edge" using t v by (simp add: triple_def)
  have n3: "\<not> is_node 0 3 one_edge" by (simp add: is_node_world [OF one_edge_ok] one_edge_nodes)
  have e: "map triple (traverse 0 (snd (erase_node 0 2 one_edge))) = []"
    using erase_node_spec(5) [OF one_edge_ok surjective_pairing, of 0 2]
    by (simp add: edge_records_def r)
  let ?u = "after (Replace_node 0 2 3) one_edge"
  have ad: "admissible (Replace_node 0 2 3) one_edge" by simp
  have "set (edge_records 0 (snd (replace_node 0 2 3 one_edge))) =
        rename_record 2 3 ` set (edge_records 0 one_edge)"
    using replace_node_spec [OF one_edge_ok surjective_pairing, of 0 2 3] n n3 by simp
  then have s: "set (map triple (traverse 0 ?u)) = {(1, 3, Some 5)}"
    by (simp add: one_edge_records rename_record_def) (simp add: edge_records_def)
  then have "(1, 3, Some 5) \<in> triple ` set (traverse 0 ?u)" by simp
  then obtain x where x: "x \<in> set (traverse 0 ?u)" "triple x = (1, 3, Some 5)" by auto
  have "is_node 0 (from_v x) ?u \<and> is_node 0 (to_v x) ?u" using t ad x(1) by blast
  then have n': "is_node 0 1 ?u \<and> is_node 0 3 ?u" using x(2) by (simp add: triple_def)
  show ?thesis using one_edge_reachable r n n3 e t ad s n' by simp
qed

text \<open>
  C9. In a well-formed store, copy assignment and copy construction of the graph \<open>g\<close>
  into another graph object \<open>c\<close> do not raise; afterwards \<open>c\<close> compares equal to \<open>g\<close>, has
  its node list and edge sequence, \<open>g\<close> shows as before, and the two share no node object
  and no edge object. A call that inserts or erases nodes or edges, renames, merges or
  clears, made on one graph object, leaves the node list, the edge sequence and the
  rendered text of every other graph object as they were, and the result of comparing
  it with a third graph object. So after the copy, a mutation of \<open>c\<close> leaves \<open>g\<close> showing as
  before the copy and comparing as before with any graph object other than \<open>c\<close>, and a
  mutation of \<open>g\<close> leaves \<open>c\<close> with the nodes and edges \<open>g\<close> had and comparing as before
  with any graph object other than \<open>g\<close>.
\<close>

theorem copy_is_independent:
  assumes "world_ok w" and "c \<noteq> g"
  shows "fst (copy_assign c g w) = Inr () \<and> independent_copy c g w (snd (copy_assign c g w)) \<and>
         fst (graph_copy c g w) = Inr () \<and> independent_copy c g w (snd (graph_copy c g w)) \<and>
         (\<forall>m k. is_mutation m \<and> admissible m w \<and> target m \<noteq> g \<longrightarrow>
            same_graph g w (after m w) \<and>
            (k \<noteq> target m \<longrightarrow> graph_eq g k (after m w) = graph_eq g k w)) \<and>
         (\<forall>m k. is_mutation m \<and> admissible m (snd (copy_assign c g w)) \<and> target m = c \<longrightarrow>
            same_graph g w (after m (snd (copy_assign c g w))) \<and>
            (k \<noteq> c \<longrightarrow> graph_eq g k (after m (snd (copy_assign c g w))) =
                            graph_eq g k (snd (copy_assign c g w)))) \<and>
         (\<forall>m k. is_mutation m \<and> admissible m (snd (copy_assign c g w)) \<and> target m = g \<longrightarrow>
            same_graph c (snd (copy_assign c g w)) (after m (snd (copy_assign c g w))) \<and>
            nodes c (after m (snd (copy_assign c g w))) = nodes g w \<and>
            traverse c (after m (snd (copy_assign c g w))) = traverse g w \<and>
            (k \<noteq> g \<longrightarrow> graph_eq c k (after m (snd (copy_assign c g w))) =
                            graph_eq c k (snd (copy_assign c g w))))"
proof -
  let ?w' = "snd (copy_assign c g w)"
  have ca: "copy_assign c g w = deep_copy c g w" using assms(2) by (simp add: copy_assign_def)
  note d = deep_copy_independent [OF assms]
  note gc = graph_copy_independent [OF assms]
  have ic: "independent_copy c g w ?w'" using d ca by simp
  then have ok': "world_ok ?w'" by (simp add: independent_copy_def)
  have sg: "same_graph g w ?w'" using ic by (simp add: independent_copy_def)
  have cv: "nodes c ?w' = nodes g w" "traverse c ?w' = traverse g w"
    using ic by (simp_all add: independent_copy_def)
  have frame_part: "\<forall>m k. is_mutation m \<and> admissible m w \<and> target m \<noteq> g \<longrightarrow>
            same_graph g w (after m w) \<and>
            (k \<noteq> target m \<longrightarrow> graph_eq g k (after m w) = graph_eq g k w)"
    using mutation_same_graph [OF assms(1)] by blast
  have on_copy: "\<forall>m k. is_mutation m \<and> admissible m ?w' \<and> target m = c \<longrightarrow>
      same_graph g w (after m ?w') \<and>
      (k \<noteq> c \<longrightarrow> graph_eq g k (after m ?w') = graph_eq g k ?w')"
  proof (intro allI impI)
    fix m k assume m: "is_mutation m \<and> admissible m ?w' \<and> target m = c"
    then have tg: "target m \<noteq> g" using assms(2) by simp
    have "same_graph g ?w' (after m ?w')"
      using mutation_same_graph(1) [OF ok' _ _ tg] m by simp
    then have 1: "same_graph g w (after m ?w')" using sg by (simp add: same_graph_def)
    have 2: "k \<noteq> c \<longrightarrow> graph_eq g k (after m ?w') = graph_eq g k ?w'"
      using mutation_same_graph(2) [OF ok' _ _ tg, of k] m by simp
    show "same_graph g w (after m ?w') \<and>
      (k \<noteq> c \<longrightarrow> graph_eq g k (after m ?w') = graph_eq g k ?w')" using 1 2 by simp
  qed
  have on_original: "\<forall>m k. is_mutation m \<and> admissible m ?w' \<and> target m = g \<longrightarrow>
      same_graph c ?w' (after m ?w') \<and>
      nodes c (after m ?w') = nodes g w \<and> traverse c (after m ?w') = traverse g w \<and>
      (k \<noteq> g \<longrightarrow> graph_eq c k (after m ?w') = graph_eq c k ?w')"
  proof (intro allI impI)
    fix m k assume m: "is_mutation m \<and> admissible m ?w' \<and> target m = g"
    then have tg: "target m \<noteq> c" using assms(2) by simp
    have 1: "same_graph c ?w' (after m ?w')"
      using mutation_same_graph(1) [OF ok' _ _ tg] m by simp
    then have 2: "nodes c (after m ?w') = nodes g w \<and> traverse c (after m ?w') = traverse g w"
      using cv by (simp add: same_graph_def)
    have 3: "k \<noteq> g \<longrightarrow> graph_eq c k (after m ?w') = graph_eq c k ?w'"
      using mutation_same_graph(2) [OF ok' _ _ tg, of k] m by simp
    show "same_graph c ?w' (after m ?w') \<and>
      nodes c (after m ?w') = nodes g w \<and> traverse c (after m ?w') = traverse g w \<and>
      (k \<noteq> g \<longrightarrow> graph_eq c k (after m ?w') = graph_eq c k ?w')" using 1 2 3 by simp
  qed
  have 1: "fst (copy_assign c g w) = Inr () \<and> independent_copy c g w ?w'" using d ca by simp
  have 2: "fst (graph_copy c g w) = Inr () \<and> independent_copy c g w (snd (graph_copy c g w))"
    using gc by simp
  show ?thesis
    apply (intro conjI)
          apply (rule conjunct1 [OF 1])
         apply (rule conjunct2 [OF 1])
        apply (rule conjunct1 [OF 2])
       apply (rule conjunct2 [OF 2])
      apply (rule frame_part)
     apply (rule on_copy)
    apply (rule on_original)
    done
qed

theorem copy_is_independent_witness:
  "world_ok one_edge \<and> (1::nat) \<noteq> 0 \<and>
   fst (copy_assign 1 0 one_edge) = Inr () \<and>
   graph_eq 1 0 (snd (copy_assign 1 0 one_edge)) \<and>
   nodes 1 (snd (copy_assign 1 0 one_edge)) = [1, 2] \<and>
   map triple (traverse 1 (snd (copy_assign 1 0 one_edge))) = [(1, 2, Some 5)] \<and>
   is_mutation (Erase_node 1 (1::int) :: (int, int) call) \<and>
   admissible (Erase_node 1 (1::int)) (snd (copy_assign 1 0 one_edge)) \<and>
   nodes 1 (after (Erase_node 1 1) (snd (copy_assign 1 0 one_edge))) = [2] \<and>
   nodes 0 (after (Erase_node 1 1) (snd (copy_assign 1 0 one_edge))) = [1, 2] \<and>
   map triple (traverse 0 (after (Erase_node 1 1) (snd (copy_assign 1 0 one_edge)))) = [(1, 2, Some 5)] \<and>
   nodes 1 (after (Erase_node 0 1) (snd (copy_assign 1 0 one_edge))) = [1, 2] \<and>
   map triple (traverse 1 (after (Erase_node 0 1) (snd (copy_assign 1 0 one_edge)))) = [(1, 2, Some 5)]"
proof -
  let ?w' = "snd (copy_assign 1 0 one_edge)"
  have ne: "(1::nat) \<noteq> 0" by simp
  note t = copy_is_independent [OF one_edge_ok ne]
  have trav: "map triple (traverse 0 one_edge) = [(1, 2, Some 5)]"
    using one_edge_records by (simp add: edge_records_def)
  have ic: "independent_copy 1 0 one_edge ?w'" using t by blast
  then have ok': "world_ok ?w'" by (simp add: independent_copy_def)
  have a: "graph_eq 1 0 ?w'" "nodes 1 ?w' = [1, 2]" "map triple (traverse 1 ?w') = [(1, 2, Some 5)]"
    using ic trav by (simp_all add: independent_copy_def one_edge_nodes)
  have m1: "is_mutation (Erase_node 1 (1::int) :: (int, int) call) \<and> admissible (Erase_node 1 (1::int)) ?w' \<and>
      target (Erase_node 1 (1::int) :: (int, int) call) = 1" by simp
  have m0: "is_mutation (Erase_node 0 (1::int) :: (int, int) call) \<and> admissible (Erase_node 0 (1::int)) ?w' \<and>
      target (Erase_node 0 (1::int) :: (int, int) call) = 0" by simp
  have "same_graph 0 one_edge (after (Erase_node 1 1) ?w')" using t m1 by blast
  then have b: "nodes 0 (after (Erase_node 1 1) ?w') = [1, 2]"
    "map triple (traverse 0 (after (Erase_node 1 1) ?w')) = [(1, 2, Some 5)]"
    using trav by (simp_all add: same_graph_def one_edge_nodes)
  have "nodes 1 (after (Erase_node 0 1) ?w') = nodes 0 one_edge \<and>
        traverse 1 (after (Erase_node 0 1) ?w') = traverse 0 one_edge" using t m0 by blast
  then have c: "nodes 1 (after (Erase_node 0 1) ?w') = [1, 2]"
    "map triple (traverse 1 (after (Erase_node 0 1) ?w')) = [(1, 2, Some 5)]"
    using trav by (simp_all add: one_edge_nodes)
  have d: "nodes 1 (after (Erase_node 1 1) ?w') = [2]"
    using erase_node_spec(4) [OF ok' surjective_pairing, of 1 1] a(2) by simp
  show ?thesis using one_edge_ok t a b c d by simp
qed

end
